theory Spec2Isabelle
  imports Main
begin

section \<open>Exceptions\<close>

text \<open>
  The exceptions that the code of \<^verbatim>\<open>task1.py\<close> raises or lets through.
  \<^verbatim>\<open>InvalidPhoneNumberError\<close> is the repository's own subclass of \<^verbatim>\<open>ValueError\<close>
  (line 6); the others are Python's. A raise is the \<open>Inl\<close> branch of a sum.
\<close>

datatype py_error = InvalidPhoneNumberError | ValueError | KeyError | OverflowError

text \<open>\<^verbatim>\<open>except ValueError\<close> also catches the subclass.\<close>

definition is_ValueError :: "py_error \<Rightarrow> bool" where
  "is_ValueError e = (e = ValueError \<or> e = InvalidPhoneNumberError)"

section \<open>Python's \<^verbatim>\<open>datetime.date\<close>\<close>

text \<open>
  A \<^verbatim>\<open>date\<close> object holds a year, a month and a day. The functions below follow the
  module \<^verbatim>\<open>datetime\<close> of the standard library, which the repository calls: the
  proleptic Gregorian ordinal (\<^verbatim>\<open>_ymd2ord\<close>, \<^verbatim>\<open>_ord2ymd\<close>), the checks of the
  constructor, \<^verbatim>\<open>replace\<close>, \<^verbatim>\<open>weekday\<close>, comparison, subtraction and the addition
  of a number of days. Python's integers are unbounded: \<open>int\<close>. Python's \<^verbatim>\<open>//\<close> and
  \<^verbatim>\<open>%\<close> round to minus infinity, as \<open>div\<close> and \<open>mod\<close> on \<open>int\<close> do.
\<close>

record date =
  year :: int
  month :: int
  day :: int

definition MINYEAR :: int where "MINYEAR = 1"
definition MAXYEAR :: int where "MAXYEAR = 9999"
definition MAXORDINAL :: int where "MAXORDINAL = 3652059"

text \<open>Index 0 of both tables is a placeholder, as in the library.\<close>

definition DAYS_IN_MONTH :: "int list" where
  "DAYS_IN_MONTH = [-1, 31, 28, 31, 30, 31, 30, 31, 31, 30, 31, 30, 31]"

definition DAYS_BEFORE_MONTH :: "int list" where
  "DAYS_BEFORE_MONTH = [-1, 0, 31, 59, 90, 120, 151, 181, 212, 243, 273, 304, 334]"

definition is_leap :: "int \<Rightarrow> bool" where
  "is_leap y = (y mod 4 = 0 \<and> (y mod 100 \<noteq> 0 \<or> y mod 400 = 0))"

definition days_before_year :: "int \<Rightarrow> int" where
  "days_before_year yr = (let y = yr - 1 in y * 365 + y div 4 - y div 100 + y div 400)"

definition days_in_month :: "int \<Rightarrow> int \<Rightarrow> int" where
  "days_in_month y m = (if m = 2 \<and> is_leap y then 29 else DAYS_IN_MONTH ! nat m)"

definition days_before_month :: "int \<Rightarrow> int \<Rightarrow> int" where
  "days_before_month y m = DAYS_BEFORE_MONTH ! nat m + (if m > 2 \<and> is_leap y then 1 else 0)"

definition ymd2ord :: "int \<Rightarrow> int \<Rightarrow> int \<Rightarrow> int" where
  "ymd2ord y m d = days_before_year y + days_before_month y m + d"

definition DI400Y :: int where "DI400Y = 146097"
definition DI100Y :: int where "DI100Y = 36524"
definition DI4Y :: int where "DI4Y = 1461"

text \<open>
  \<^verbatim>\<open>_ord2ymd\<close>, in two parts. The second half of its body finds the month and the day
  from the offset \<open>n\<close> of the day within its year and the flag \<open>leapyear\<close>: the
  estimate \<^verbatim>\<open>(n + 50) >> 5\<close> of the month is exact or one too large.
\<close>

definition month_day :: "bool \<Rightarrow> int \<Rightarrow> int \<times> int" where
  "month_day leapyear n =
     (let mo = (n + 50) div 32;
          preceding = DAYS_BEFORE_MONTH ! nat mo + (if mo > 2 \<and> leapyear then 1 else 0)
      in if preceding > n
         then let mo = mo - 1;
                  preceding = preceding
                    - (DAYS_IN_MONTH ! nat mo + (if mo = 2 \<and> leapyear then 1 else 0))
              in (mo, n - preceding + 1)
         else (mo, n - preceding + 1))"

text \<open>
  The first half counts the 400-year, 100-year and 4-year cycles and the single years
  before the day; \<open>n1 = 4\<close> or \<open>n100 = 4\<close> means December 31 at the end of a cycle.
\<close>

definition ord2ymd :: "int \<Rightarrow> int \<times> int \<times> int" where
  "ord2ymd ordinal =
     (let n = ordinal - 1;
          n400 = n div DI400Y; n = n mod DI400Y;
          n100 = n div DI100Y; n = n mod DI100Y;
          n4 = n div DI4Y; n = n mod DI4Y;
          n1 = n div 365; n = n mod 365;
          yr = n400 * 400 + 1 + n100 * 100 + n4 * 4 + n1
      in if n1 = 4 \<or> n100 = 4 then (yr - 1, 12, 31)
         else case month_day (n1 = 3 \<and> (n4 \<noteq> 24 \<or> n100 = 3)) n of
                (mo, dd) \<Rightarrow> (yr, mo, dd))"

text \<open>
  The constructor \<^verbatim>\<open>date(year, month, day)\<close> with the checks of
  \<^verbatim>\<open>_check_date_fields\<close>: each failed check raises \<^verbatim>\<open>ValueError\<close>.
\<close>

definition date_new :: "int \<Rightarrow> int \<Rightarrow> int \<Rightarrow> py_error + date" where
  "date_new y m d =
     (if \<not> (MINYEAR \<le> y \<and> y \<le> MAXYEAR) then Inl ValueError
      else if \<not> (1 \<le> m \<and> m \<le> 12) then Inl ValueError
      else if \<not> (1 \<le> d \<and> d \<le> days_in_month y m) then Inl ValueError
      else Inr \<lparr>year = y, month = m, day = d\<rparr>)"

text \<open>Every \<^verbatim>\<open>date\<close> object of a running program has passed these checks.\<close>

definition valid_date :: "date \<Rightarrow> bool" where
  "valid_date d =
     (MINYEAR \<le> year d \<and> year d \<le> MAXYEAR \<and> 1 \<le> month d \<and> month d \<le> 12
      \<and> 1 \<le> day d \<and> day d \<le> days_in_month (year d) (month d))"

text \<open>\<^verbatim>\<open>d.replace(year=y)\<close> builds a new date through the constructor.\<close>

definition replace_year :: "date \<Rightarrow> int \<Rightarrow> py_error + date" where
  "replace_year d y = date_new y (month d) (day d)"

definition toordinal :: "date \<Rightarrow> int" where
  "toordinal d = ymd2ord (year d) (month d) (day d)"

definition fromordinal :: "int \<Rightarrow> py_error + date" where
  "fromordinal n = (case ord2ymd n of (y, m, d) \<Rightarrow> date_new y m d)"

text \<open>Monday is 0, Sunday is 6.\<close>

definition weekday :: "date \<Rightarrow> int" where
  "weekday d = (toordinal d + 6) mod 7"

text \<open>\<^verbatim>\<open>a <= b\<close> compares the triples (year, month, day).\<close>

definition date_le :: "date \<Rightarrow> date \<Rightarrow> bool" where
  "date_le a b =
     (year a < year b \<or> (year a = year b \<and>
        (month a < month b \<or> (month a = month b \<and> day a \<le> day b))))"

text \<open>\<^verbatim>\<open>(a - b).days\<close>: the difference of two dates is a \<^verbatim>\<open>timedelta\<close> of whole days.\<close>

definition days_between :: "date \<Rightarrow> date \<Rightarrow> int" where
  "days_between a b = toordinal a - toordinal b"

text \<open>
  \<^verbatim>\<open>d + timedelta(days=n)\<close>: \<^verbatim>\<open>OverflowError\<close> when the ordinal leaves
  \<open>1 .. MAXORDINAL\<close>.
\<close>

definition date_add_days :: "date \<Rightarrow> int \<Rightarrow> py_error + date" where
  "date_add_days d n =
     (let ord = toordinal d + n
      in if 0 < ord \<and> ord \<le> MAXORDINAL then fromordinal ord else Inl OverflowError)"

section \<open>Python strings\<close>

text \<open>
  A \<^verbatim>\<open>str\<close> is a sequence of Unicode code points, and \<^verbatim>\<open>len\<close> counts code points:
  a string is the list of its code points. The two tables are those of the Unicode
  character database that CPython 3.11 ships (Unicode 14.0), as ranges of code points:
  the characters for which \<^verbatim>\<open>str.isdigit\<close> holds (Numeric_Type Digit or Decimal) and
  those for which \<^verbatim>\<open>str.isdecimal\<close> holds (Numeric_Type Decimal, the class \<^verbatim>\<open>\d\<close>
  of the module \<^verbatim>\<open>re\<close>). Each range of the second table holds the digits 0 to 9 in
  order, once or (the mathematical digits) several times over.
\<close>

type_synonym pystr = "nat list"

definition ascii :: "string \<Rightarrow> pystr" where
  "ascii s = map of_char s"

definition digit_ranges :: "(nat \<times> nat) list" where
  "digit_ranges =
    [(48, 57), (178, 179), (185, 185), (1632, 1641), (1776, 1785), (1984, 1993),
     (2406, 2415), (2534, 2543), (2662, 2671), (2790, 2799), (2918, 2927), (3046, 3055),
     (3174, 3183), (3302, 3311), (3430, 3439), (3558, 3567), (3664, 3673), (3792, 3801),
     (3872, 3881), (4160, 4169), (4240, 4249), (4969, 4977), (6112, 6121), (6160, 6169),
     (6470, 6479), (6608, 6618), (6784, 6793), (6800, 6809), (6992, 7001), (7088, 7097),
     (7232, 7241), (7248, 7257), (8304, 8304), (8308, 8313), (8320, 8329), (9312, 9320),
     (9332, 9340), (9352, 9360), (9450, 9450), (9461, 9469), (9471, 9471), (10102, 10110),
     (10112, 10120), (10122, 10130), (42528, 42537), (43216, 43225), (43264, 43273),
     (43472, 43481), (43504, 43513), (43600, 43609), (44016, 44025), (65296, 65305),
     (66720, 66729), (68160, 68163), (68912, 68921), (69216, 69224), (69714, 69722),
     (69734, 69743), (69872, 69881), (69942, 69951), (70096, 70105), (70384, 70393),
     (70736, 70745), (70864, 70873), (71248, 71257), (71360, 71369), (71472, 71481),
     (71904, 71913), (72016, 72025), (72784, 72793), (73040, 73049), (73120, 73129),
     (92768, 92777), (92864, 92873), (93008, 93017), (120782, 120831), (123200, 123209),
     (123632, 123641), (125264, 125273), (127232, 127242), (130032, 130041)]"

definition decimal_ranges :: "(nat \<times> nat) list" where
  "decimal_ranges =
    [(48, 57), (1632, 1641), (1776, 1785), (1984, 1993), (2406, 2415), (2534, 2543),
     (2662, 2671), (2790, 2799), (2918, 2927), (3046, 3055), (3174, 3183), (3302, 3311),
     (3430, 3439), (3558, 3567), (3664, 3673), (3792, 3801), (3872, 3881), (4160, 4169),
     (4240, 4249), (6112, 6121), (6160, 6169), (6470, 6479), (6608, 6617), (6784, 6793),
     (6800, 6809), (6992, 7001), (7088, 7097), (7232, 7241), (7248, 7257), (42528, 42537),
     (43216, 43225), (43264, 43273), (43472, 43481), (43504, 43513), (43600, 43609),
     (44016, 44025), (65296, 65305), (66720, 66729), (68912, 68921), (69734, 69743),
     (69872, 69881), (69942, 69951), (70096, 70105), (70384, 70393), (70736, 70745),
     (70864, 70873), (71248, 71257), (71360, 71369), (71472, 71481), (71904, 71913),
     (72016, 72025), (72784, 72793), (73040, 73049), (73120, 73129), (92768, 92777),
     (92864, 92873), (93008, 93017), (120782, 120831), (123200, 123209), (123632, 123641),
     (125264, 125273), (130032, 130041)]"

definition in_ranges :: "nat \<Rightarrow> (nat \<times> nat) list \<Rightarrow> bool" where
  "in_ranges c rs = list_ex (\<lambda>(lo, hi). lo \<le> c \<and> c \<le> hi) rs"

definition char_isdigit :: "nat \<Rightarrow> bool" where
  "char_isdigit c = in_ranges c digit_ranges"

definition char_isdecimal :: "nat \<Rightarrow> bool" where
  "char_isdecimal c = in_ranges c decimal_ranges"

text \<open>\<^verbatim>\<open>s.isdigit()\<close>: every character is a digit and there is at least one.\<close>

definition str_isdigit :: "pystr \<Rightarrow> bool" where
  "str_isdigit s = (s \<noteq> [] \<and> list_all char_isdigit s)"

text \<open>The value of a decimal character, and \<^verbatim>\<open>int(s)\<close> on a string of decimal
  characters after optional leading spaces (the only strings it is applied to below).\<close>

definition decimal_value :: "nat \<Rightarrow> int" where
  "decimal_value c =
     (case find (\<lambda>(lo, hi). lo \<le> c \<and> c \<le> hi) decimal_ranges of
        Some (lo, hi) \<Rightarrow> int ((c - lo) mod 10)
      | None \<Rightarrow> 0)"

definition py_int :: "pystr \<Rightarrow> int" where
  "py_int s = foldl (\<lambda>acc c. 10 * acc + decimal_value c) 0 (dropWhile (\<lambda>c. c = 32) s)"

section \<open>\<^verbatim>\<open>datetime.strptime(s, "%d.%m.%Y").date()\<close>\<close>

text \<open>
  \<^verbatim>\<open>_strptime\<close> turns the format into the regular expression
  \<^verbatim>\<open>(?P<d>3[0-1]|[1-2]\d|0[1-9]|[1-9]| [1-9])\.(?P<m>1[0-2]|0[1-9]|[1-9])\.(?P<Y>\d\d\d\d)\<close>,
  matches it at the start of the string (\<^verbatim>\<open>re.match\<close>, with backtracking over the
  alternatives in their order), raises \<^verbatim>\<open>ValueError\<close> when there is no match or when
  the match does not reach the end of the string, converts the three groups with
  \<^verbatim>\<open>int\<close> and builds the date, which raises \<^verbatim>\<open>ValueError\<close> when there is no such day.
  A matcher returns its matches in the order in which backtracking tries them, each with
  the matched text and the rest of the string. Code points: space 32, full stop 46,
  \<^verbatim>\<open>0\<close> to \<^verbatim>\<open>9\<close> 48 to 57. The flag \<^verbatim>\<open>IGNORECASE\<close> changes nothing here: no
  character of these classes has a case variant.
\<close>

definition one_char :: "(nat \<Rightarrow> bool) \<Rightarrow> pystr \<Rightarrow> (pystr \<times> pystr) list" where
  "one_char p s = (case s of c # r \<Rightarrow> if p c then [([c], r)] else [] | [] \<Rightarrow> [])"

definition two_chars ::
  "(nat \<Rightarrow> bool) \<Rightarrow> (nat \<Rightarrow> bool) \<Rightarrow> pystr \<Rightarrow> (pystr \<times> pystr) list" where
  "two_chars p q s =
     (case s of c1 # c2 # r \<Rightarrow> if p c1 \<and> q c2 then [([c1, c2], r)] else [] | _ \<Rightarrow> [])"

definition re_d :: "pystr \<Rightarrow> (pystr \<times> pystr) list" where
  "re_d s =
     two_chars (\<lambda>c. c = 51) (\<lambda>c. 48 \<le> c \<and> c \<le> 49) s
     @ two_chars (\<lambda>c. 49 \<le> c \<and> c \<le> 50) char_isdecimal s
     @ two_chars (\<lambda>c. c = 48) (\<lambda>c. 49 \<le> c \<and> c \<le> 57) s
     @ one_char (\<lambda>c. 49 \<le> c \<and> c \<le> 57) s
     @ two_chars (\<lambda>c. c = 32) (\<lambda>c. 49 \<le> c \<and> c \<le> 57) s"

definition re_m :: "pystr \<Rightarrow> (pystr \<times> pystr) list" where
  "re_m s =
     two_chars (\<lambda>c. c = 49) (\<lambda>c. 48 \<le> c \<and> c \<le> 50) s
     @ two_chars (\<lambda>c. c = 48) (\<lambda>c. 49 \<le> c \<and> c \<le> 57) s
     @ one_char (\<lambda>c. 49 \<le> c \<and> c \<le> 57) s"

definition re_Y :: "pystr \<Rightarrow> (pystr \<times> pystr) list" where
  "re_Y s =
     (case s of
        c1 # c2 # c3 # c4 # r \<Rightarrow>
          if char_isdecimal c1 \<and> char_isdecimal c2 \<and> char_isdecimal c3 \<and> char_isdecimal c4
          then [([c1, c2, c3, c4], r)] else []
      | _ \<Rightarrow> [])"

definition re_dot :: "pystr \<Rightarrow> pystr list" where
  "re_dot s = (case s of c # r \<Rightarrow> if c = 46 then [r] else [] | [] \<Rightarrow> [])"

definition re_match_dmY :: "pystr \<Rightarrow> (pystr \<times> pystr \<times> pystr \<times> pystr) list" where
  "re_match_dmY s =
     concat (map (\<lambda>(d, r1).
       concat (map (\<lambda>r2.
         concat (map (\<lambda>(m, r3).
           concat (map (\<lambda>r4.
             map (\<lambda>(y, r5). (d, m, y, r5)) (re_Y r4))
           (re_dot r3)))
         (re_m r2)))
       (re_dot r1)))
     (re_d s))"

definition strptime_dmY :: "pystr \<Rightarrow> py_error + date" where
  "strptime_dmY s =
     (case re_match_dmY s of
        [] \<Rightarrow> Inl ValueError
      | (d, m, y, rest) # _ \<Rightarrow>
          if rest \<noteq> [] then Inl ValueError
          else date_new (py_int y) (py_int m) (py_int d))"

section \<open>The contact record\<close>

text \<open>
  \<^verbatim>\<open>Field\<close> only wraps a value, so \<^verbatim>\<open>Name\<close> and \<^verbatim>\<open>Phone\<close> are the wrapped strings;
  the check of \<^verbatim>\<open>Phone.__init__\<close> (lines 24 to 27) is \<open>Phone_init\<close>.
\<close>

definition Phone_init :: "pystr \<Rightarrow> py_error + pystr" where
  "Phone_init v =
     (if length v \<noteq> 10 \<or> \<not> str_isdigit v then Inl InvalidPhoneNumberError else Inr v)"

record Record =
  name :: pystr
  phone :: pystr
  birthday :: "date option"

text \<open>\<^verbatim>\<open>Record.__init__\<close> (lines 31 to 34).\<close>

definition Record_init :: "pystr \<Rightarrow> pystr \<Rightarrow> py_error + Record" where
  "Record_init nm ph =
     (case Phone_init ph of
        Inl e \<Rightarrow> Inl e
      | Inr p \<Rightarrow> Inr \<lparr>name = nm, phone = p, birthday = None\<rparr>)"

text \<open>
  A method that assigns to a field of \<^verbatim>\<open>self\<close> returns the exception it raised, if
  any, and the record as it is afterwards. The right-hand side of the assignment is
  evaluated first, so a raise there leaves the field as it was.
  \<^verbatim>\<open>add_birthday\<close> is lines 36 to 39, \<^verbatim>\<open>update_phone\<close> lines 41 and 42.
\<close>

definition add_birthday :: "Record \<Rightarrow> pystr \<Rightarrow> py_error option \<times> Record" where
  "add_birthday r s =
     (case strptime_dmY s of
        Inl e \<Rightarrow> (Some e, r)
      | Inr d \<Rightarrow> (None, r\<lparr>birthday := Some d\<rparr>))"

definition update_phone :: "Record \<Rightarrow> pystr \<Rightarrow> py_error option \<times> Record" where
  "update_phone r new_phone_number =
     (case Phone_init new_phone_number of
        Inl e \<Rightarrow> (Some e, r)
      | Inr p \<Rightarrow> (None, r\<lparr>phone := p\<rparr>))"

section \<open>The address book\<close>

text \<open>
  \<^verbatim>\<open>AddressBook\<close> is a \<^verbatim>\<open>UserDict\<close>: its \<^verbatim>\<open>data\<close> is a \<^verbatim>\<open>dict\<close>, which keeps its
  keys in insertion order, and the query below appends names in that order. It is the
  list of its items. Assigning to a key that is present replaces the value in place,
  assigning to a new key appends; \<^verbatim>\<open>pop\<close> and \<^verbatim>\<open>__getitem__\<close> raise \<^verbatim>\<open>KeyError\<close>
  on a key that is absent. Records are held by value: the in-place change of a record
  found in the book is the replacement of the item under its key.
\<close>

type_synonym AddressBook = "(pystr \<times> Record) list"

fun dict_setitem :: "'k \<Rightarrow> 'v \<Rightarrow> ('k \<times> 'v) list \<Rightarrow> ('k \<times> 'v) list" where
  "dict_setitem k v [] = [(k, v)]"
| "dict_setitem k v ((k', v') # kvs) =
     (if k' = k then (k', v) # kvs else (k', v') # dict_setitem k v kvs)"

fun dict_getitem :: "('k \<times> 'v) list \<Rightarrow> 'k \<Rightarrow> py_error + 'v" where
  "dict_getitem [] k = Inl KeyError"
| "dict_getitem ((k', v') # kvs) k = (if k' = k then Inr v' else dict_getitem kvs k)"

fun dict_pop :: "('k \<times> 'v) list \<Rightarrow> 'k \<Rightarrow> py_error + ('v \<times> ('k \<times> 'v) list)" where
  "dict_pop [] k = Inl KeyError"
| "dict_pop ((k', v') # kvs) k =
     (if k' = k then Inr (v', kvs)
      else case dict_pop kvs k of
             Inl e \<Rightarrow> Inl e
           | Inr (v, kvs') \<Rightarrow> Inr (v, (k', v') # kvs'))"

text \<open>\<^verbatim>\<open>add_record\<close> (lines 49, 50), \<^verbatim>\<open>find\<close> (52, 53) and \<^verbatim>\<open>delete\<close> (55, 56).
  \<^verbatim>\<open>delete\<close> returns the exception, if any, and the book as it is afterwards.\<close>

definition add_record :: "AddressBook \<Rightarrow> Record \<Rightarrow> AddressBook" where
  "add_record book r = dict_setitem (name r) r book"

definition find_record :: "AddressBook \<Rightarrow> pystr \<Rightarrow> py_error + Record" where
  "find_record book nm = dict_getitem book nm"

definition delete :: "AddressBook \<Rightarrow> pystr \<Rightarrow> py_error option \<times> AddressBook" where
  "delete book nm =
     (case dict_pop book nm of
        Inl e \<Rightarrow> (Some e, book)
      | Inr (v, book') \<Rightarrow> (None, book'))"

text \<open>
  The books of a running program: the empty book of \<^verbatim>\<open>main\<close>, and what
  \<^verbatim>\<open>add_record\<close>, \<^verbatim>\<open>delete\<close> and the two methods that change a record found in the
  book (\<^verbatim>\<open>change_contact\<close>, lines 124 to 131, and \<^verbatim>\<open>add_birthday\<close>, lines 141 to 147,
  call \<^verbatim>\<open>find\<close> and then the method on the record) make of such a book.
\<close>

inductive reachable :: "AddressBook \<Rightarrow> bool" where
  empty: "reachable []"
| added: "reachable book \<Longrightarrow> reachable (add_record book r)"
| deleted: "reachable book \<Longrightarrow> reachable (snd (delete book nm))"
| phone_updated:
    "reachable book \<Longrightarrow> find_record book nm = Inr r \<Longrightarrow>
     reachable (dict_setitem nm (snd (update_phone r p)) book)"
| birthday_added:
    "reachable book \<Longrightarrow> find_record book nm = Inr r \<Longrightarrow>
     reachable (dict_setitem nm (snd (add_birthday r s)) book)"

section \<open>The birthdays of the coming week\<close>

text \<open>
  \<^verbatim>\<open>get_birthdays_per_week\<close> (lines 58 to 94) takes no date: it calls
  \<^verbatim>\<open>datetime.today()\<close> inside its loop, once for every record that has a birthday.
  The system clock is an input of the model: \<open>clk i\<close> is the date that the
  \<open>i\<close>-th call of one run returns (counting from 0).
\<close>

type_synonym clock = "nat \<Rightarrow> date"

text \<open>The body of the \<^verbatim>\<open>try\<close> (lines 69 to 73); every raise in it is a
  \<^verbatim>\<open>ValueError\<close> of the constructor.\<close>

definition next_birthday :: "date \<Rightarrow> date \<Rightarrow> py_error + date" where
  "next_birthday today b =
     (case replace_year b (year today) of
        Inl e \<Rightarrow> Inl e
      | Inr nb \<Rightarrow> if date_le nb today then replace_year nb (year nb + 1) else Inr nb)"

text \<open>Lines 79 to 84: a birthday on a Saturday (5) or a Sunday (6) moves to Monday.\<close>

definition date_to_congratulate :: "date \<Rightarrow> py_error + date" where
  "date_to_congratulate nb =
     (if weekday nb = 5 \<or> weekday nb = 6
      then let days_until_monday = 7 - weekday nb in date_add_days nb days_until_monday
      else Inr nb)"

text \<open>
  The result is a \<^verbatim>\<open>defaultdict(list)\<close> from the weekday to the names:
  \<^verbatim>\<open>upcoming_birthdays[w].append(name)\<close> makes the empty list under a new key first.
\<close>

type_synonym buckets = "int \<rightharpoonup> pystr list"

definition bucket :: "buckets \<Rightarrow> int \<Rightarrow> pystr list" where
  "bucket upcoming w = (case upcoming w of None \<Rightarrow> [] | Some names \<Rightarrow> names)"

definition bucket_append :: "buckets \<Rightarrow> int \<Rightarrow> pystr \<Rightarrow> buckets" where
  "bucket_append upcoming w nm = upcoming(w \<mapsto> bucket upcoming w @ [nm])"

text \<open>
  The loop over \<^verbatim>\<open>self.data.items()\<close>. The book \<open>data\<close> is the state of the run:
  every step of the loop receives it and hands it on, the iterator of the dictionary
  view takes the item at its position \<open>k\<close> from it, and the method returns it with
  its result. \<open>i\<close> counts the calls of the clock so far. \<^verbatim>\<open>continue\<close> goes on with
  the next position; \<^verbatim>\<open>except ValueError\<close> catches the raises of the \<^verbatim>\<open>try\<close> body,
  any other exception ends the loop. No statement of the body assigns to
  \<^verbatim>\<open>self.data\<close> or to a field of a record, so every branch hands on the book it
  received; that the whole run does is a theorem below.
\<close>

function birthdays_loop ::
  "clock \<Rightarrow> nat \<Rightarrow> nat \<Rightarrow> buckets \<Rightarrow> AddressBook \<Rightarrow> (py_error + buckets) \<times> AddressBook"
  where
  "birthdays_loop clk i k upcoming data =
     (if k < length data
      then
        (case data ! k of
           (nm, r) \<Rightarrow>
             (case birthday r of
                None \<Rightarrow> birthdays_loop clk i (Suc k) upcoming data
              | Some b \<Rightarrow>
                  let today = clk i in
                  (case next_birthday today b of
                     Inl e \<Rightarrow>
                       if is_ValueError e
                       then birthdays_loop clk (Suc i) (Suc k) upcoming data
                       else (Inl e, data)
                   | Inr nb \<Rightarrow>
                       (case date_to_congratulate nb of
                          Inl e \<Rightarrow> (Inl e, data)
                        | Inr dc \<Rightarrow>
                            if days_between dc today > 7
                            then birthdays_loop clk (Suc i) (Suc k) upcoming data
                            else birthdays_loop clk (Suc i) (Suc k)
                                   (bucket_append upcoming (weekday dc) nm) data))))
      else (Inr upcoming, data))"
  by pat_completeness auto
termination
  by (relation "measure (\<lambda>(clk, i, k, upcoming, data). length data - k)") auto

declare birthdays_loop.simps [simp del]

text \<open>
  The method starts the loop at the first item with an empty result. It returns the
  result, or the exception that ended the loop, and the book as the loop leaves it.
\<close>

definition get_birthdays_per_week ::
  "clock \<Rightarrow> AddressBook \<Rightarrow> (py_error + buckets) \<times> AddressBook" where
  "get_birthdays_per_week clk book = birthdays_loop clk 0 0 Map.empty book"

text \<open>The number of times one run reads the clock.\<close>

definition clock_reads :: "AddressBook \<Rightarrow> nat" where
  "clock_reads book = length (filter (\<lambda>(nm, r). birthday r \<noteq> None) book)"

text \<open>
  Two clocks for the statements below: one that shows the same date at every call, and
  one whose date changes after \<open>k\<close> calls (midnight passes during the run).
\<close>

definition steady_clock :: "date \<Rightarrow> clock" where
  "steady_clock d = (\<lambda>i. d)"

definition clock_change :: "nat \<Rightarrow> date \<Rightarrow> date \<Rightarrow> clock" where
  "clock_change k d1 d2 = (\<lambda>i. if i < k then d1 else d2)"

section \<open>The words of the specification\<close>

text \<open>
  The decimal digits \<^verbatim>\<open>0\<close> to \<^verbatim>\<open>9\<close>, and the day.month.year string of a date
  with a two-digit day, a two-digit month and a four-digit year, as in
  \<^verbatim>\<open>17.03.1990\<close>.
\<close>

definition ascii_digit :: "nat \<Rightarrow> bool" where
  "ascii_digit c = (48 \<le> c \<and> c \<le> 57)"

definition two_digits :: "int \<Rightarrow> pystr" where
  "two_digits n = [48 + nat (n div 10), 48 + nat (n mod 10)]"

definition four_digits :: "int \<Rightarrow> pystr" where
  "four_digits n =
     [48 + nat (n div 1000), 48 + nat (n div 100 mod 10), 48 + nat (n div 10 mod 10),
      48 + nat (n mod 10)]"

definition dmy_string :: "date \<Rightarrow> pystr" where
  "dmy_string d = two_digits (day d) @ [46] @ two_digits (month d) @ [46] @ four_digits (year d)"

section \<open>Auxiliary notions for the proofs\<close>

text \<open>
  \<open>congratulated today b w\<close>: a record with birthday \<open>b\<close>, examined when the clock
  shows \<open>today\<close>, reaches line 92 with weekday \<open>w\<close>. \<open>contributes\<close>: some item of
  the book under the name \<open>x\<close> does.
\<close>

definition congratulated :: "date \<Rightarrow> date \<Rightarrow> int \<Rightarrow> bool" where
  "congratulated today b w =
     (case next_birthday today b of
        Inl e \<Rightarrow> False
      | Inr nb \<Rightarrow>
          (case date_to_congratulate nb of
             Inl e \<Rightarrow> False
           | Inr dc \<Rightarrow> \<not> days_between dc today > 7 \<and> weekday dc = w))"

definition contributes :: "date \<Rightarrow> (pystr \<times> Record) list \<Rightarrow> int \<Rightarrow> pystr \<Rightarrow> bool" where
  "contributes today book w x =
     (\<exists>r b. (x, r) \<in> set book \<and> birthday r = Some b \<and> congratulated today b w)"

text \<open>The keys of the book are distinct and each record is stored under its name.\<close>

definition keyed_by_name :: "AddressBook \<Rightarrow> bool" where
  "keyed_by_name book = (distinct (map fst book) \<and> list_all (\<lambda>(k, r). name r = k) book)"

section \<open>Example data\<close>

text \<open>Dates, contacts and small books for the concrete instances of the theorems.\<close>

definition mk_date :: "int \<Rightarrow> int \<Rightarrow> int \<Rightarrow> date" where
  "mk_date y m d = \<lparr>year = y, month = m, day = d\<rparr>"

definition contact :: "string \<Rightarrow> date option \<Rightarrow> Record" where
  "contact nm bd = \<lparr>name = ascii nm, phone = ascii ''0123456789'', birthday = bd\<rparr>"

definition one_contact_book :: "date \<Rightarrow> AddressBook" where
  "one_contact_book bd = [(ascii ''Ann'', contact ''Ann'' (Some bd))]"

definition two_contact_book :: "date \<Rightarrow> date \<Rightarrow> AddressBook" where
  "two_contact_book bd1 bd2 =
     [(ascii ''Zed'', contact ''Zed'' (Some bd1)), (ascii ''Ann'', contact ''Ann'' (Some bd2))]"

section \<open>Lemmas about dates\<close>

text \<open>
  The ordinal of the date that \<open>ord2ymd\<close> returns is the ordinal it was given, the date
  is a calendar date, and the ordinal of a calendar date lies in \<open>1 .. MAXORDINAL\<close>.
  The proofs write the year before the date as \<open>400 a + 100 b + 4 c + d1\<close>.
\<close>

lemma month_cases:
  fixes m :: int
  assumes "1 \<le> m" "m \<le> 12"
  shows "m = 1 \<or> m = 2 \<or> m = 3 \<or> m = 4 \<or> m = 5 \<or> m = 6 \<or> m = 7 \<or> m = 8 \<or> m = 9 \<or> m = 10 \<or> m = 11 \<or> m = 12"
  using assms by arith

lemma month_day_ok:
  assumes "0 \<le> n" "n < 365" "month_day lp n = (m, d)"
  shows "1 \<le> m \<and> m \<le> 12 \<and> 1 \<le> d
     \<and> d \<le> (if m = 2 \<and> lp then 29 else DAYS_IN_MONTH ! nat m)
     \<and> DAYS_BEFORE_MONTH ! nat m + (if m > 2 \<and> lp then 1 else 0) + d = n + 1"
proof -
  define k where "k = (n + 50) div 32"
  have k: "32 * k \<le> n + 50" "n + 50 < 32 * k + 32"
    unfolding k_def by arith+
  with assms(1,2) have "1 \<le> k" "k \<le> 12" by arith+
  then have "k = 1 \<or> k = 2 \<or> k = 3 \<or> k = 4 \<or> k = 5 \<or> k = 6 \<or> k = 7 \<or> k = 8 \<or> k = 9 \<or> k = 10 \<or> k = 11 \<or> k = 12"
    by (rule month_cases)
  then show ?thesis
    using k assms unfolding month_day_def k_def[symmetric] Let_def
    by (elim disjE) (auto simp: DAYS_BEFORE_MONTH_def DAYS_IN_MONTH_def split: if_splits)
qed


lemma year_part:
  fixes n0 :: int
  assumes "0 \<le> n0"
  defines "a \<equiv> n0 div 146097" and "r1 \<equiv> n0 mod 146097"
  defines "b \<equiv> r1 div 36524" and "r2 \<equiv> r1 mod 36524"
  defines "c \<equiv> r2 div 1461" and "r3 \<equiv> r2 mod 1461"
  defines "d1 \<equiv> r3 div 365" and "e \<equiv> r3 mod 365"
  shows "n0 = 146097 * a + 36524 * b + 1461 * c + 365 * d1 + e"
    and "0 \<le> a" "0 \<le> b" "b \<le> 4" "0 \<le> c" "c \<le> 24" "0 \<le> d1" "d1 \<le> 4" "0 \<le> e" "e < 365"
    and "b = 4 \<Longrightarrow> c = 0 \<and> d1 = 0 \<and> e = 0"
    and "d1 = 4 \<Longrightarrow> e = 0 \<and> c \<le> 23"
proof -
  have 1: "n0 = 146097 * a + r1" "0 \<le> r1" "r1 < 146097" unfolding a_def r1_def by simp_all
  have 2: "r1 = 36524 * b + r2" "0 \<le> r2" "r2 < 36524" unfolding b_def r2_def by simp_all
  have 3: "r2 = 1461 * c + r3" "0 \<le> r3" "r3 < 1461" unfolding c_def r3_def by simp_all
  have 4: "r3 = 365 * d1 + e" "0 \<le> e" "e < 365" unfolding d1_def e_def by simp_all
  show "n0 = 146097 * a + 36524 * b + 1461 * c + 365 * d1 + e" using 1 2 3 4 by simp
  show "0 \<le> a" using assms(1) unfolding a_def by (simp add: pos_imp_zdiv_nonneg_iff)
  show b0: "0 \<le> b" using 1(2) unfolding b_def by (simp add: pos_imp_zdiv_nonneg_iff)
  show b4: "b \<le> 4" using 1(3) unfolding b_def by linarith
  show c0: "0 \<le> c" using 2(2) unfolding c_def by (simp add: pos_imp_zdiv_nonneg_iff)
  show c24: "c \<le> 24" using 2(3) unfolding c_def by linarith
  show d0: "0 \<le> d1" using 3(2) unfolding d1_def by (simp add: pos_imp_zdiv_nonneg_iff)
  show d4: "d1 \<le> 4" using 3(3) unfolding d1_def by linarith
  show "0 \<le> e" "e < 365" using 4 by simp_all
  show "c = 0 \<and> d1 = 0 \<and> e = 0" if "b = 4"
  proof -
    have "r2 = 0" using that 1(3) 2 by linarith
    then have "r3 = 0" "c = 0" unfolding r3_def c_def by simp_all
    then show ?thesis unfolding d1_def e_def by simp
  qed
  show "e = 0 \<and> c \<le> 23" if "d1 = 4"
  proof -
    have "e = 0" using that 3(3) 4 by linarith
    moreover have "c \<le> 23" using that 2(3) 3(1) 4(1) 4(2) c24 by linarith
    ultimately show ?thesis by simp
  qed
qed

lemma dby_cycles:
  fixes a b c d1 :: int
  assumes "0 \<le> b" "b \<le> 3" "0 \<le> c" "c \<le> 24" "0 \<le> d1" "d1 \<le> 3"
  shows "days_before_year (400 * a + 100 * b + 4 * c + d1 + 1)
         = 146097 * a + 36524 * b + 1461 * c + 365 * d1"
proof -
  define Y where "Y = 400 * a + 100 * b + 4 * c + d1"
  have 4: "Y div 4 = 100 * a + 25 * b + c"
    by (rule int_div_pos_eq[where r = d1]) (use assms in \<open>simp_all add: Y_def\<close>)
  have 100: "Y div 100 = 4 * a + b"
    by (rule int_div_pos_eq[where r = "4 * c + d1"]) (use assms in \<open>simp_all add: Y_def\<close>)
  have 400: "Y div 400 = a"
    by (rule int_div_pos_eq[where r = "100 * b + 4 * c + d1"]) (use assms in \<open>simp_all add: Y_def\<close>)
  show ?thesis
    unfolding days_before_year_def Let_def
    using 4 100 400 by (simp add: Y_def)
qed

lemma mod_zero_offset:
  fixes m q r :: int
  assumes "0 < r" "r \<le> m"
  shows "(m * q + r) mod m = 0 \<longleftrightarrow> r = m"
proof (cases "r = m")
  case True
  then show ?thesis by simp
next
  case False
  with assms have "r < m" by simp
  have "(m * q + r) mod m = r"
    by (rule int_mod_pos_eq[where q = q]) (use assms \<open>r < m\<close> in simp_all)
  with assms False show ?thesis by simp
qed

lemma leap_cycles:
  fixes a b c d1 :: int
  assumes "0 \<le> b" "b \<le> 3" "0 \<le> c" "c \<le> 24" "0 \<le> d1" "d1 \<le> 3"
  shows "is_leap (400 * a + 100 * b + 4 * c + d1 + 1) = (d1 = 3 \<and> (c \<noteq> 24 \<or> b = 3))"
proof -
  define Y where "Y = 400 * a + 100 * b + 4 * c + d1 + 1"
  have "Y = 4 * (100 * a + 25 * b + c) + (d1 + 1)" by (simp add: Y_def)
  then have 4: "Y mod 4 = 0 \<longleftrightarrow> d1 = 3"
    using mod_zero_offset[of "d1 + 1" 4 "100 * a + 25 * b + c"] assms by auto
  have e100: "(4 * c + d1 + 1 = 100) = (d1 = 3 \<and> c = 24)" using assms by arith
  have r100: "0 < 4 * c + d1 + 1" "4 * c + d1 + 1 \<le> 100" using assms by arith+
  have "Y = 100 * (4 * a + b) + (4 * c + d1 + 1)" by (simp add: Y_def)
  then have 100: "Y mod 100 = 0 \<longleftrightarrow> d1 = 3 \<and> c = 24"
    using mod_zero_offset[OF r100, of "4 * a + b"] e100 by simp
  have e400: "(100 * b + 4 * c + d1 + 1 = 400) = (d1 = 3 \<and> c = 24 \<and> b = 3)"
    using assms by arith
  have r400: "0 < 100 * b + 4 * c + d1 + 1" "100 * b + 4 * c + d1 + 1 \<le> 400"
    using assms by arith+
  have "Y = 400 * a + (100 * b + 4 * c + d1 + 1)" by (simp add: Y_def)
  then have 400: "Y mod 400 = 0 \<longleftrightarrow> d1 = 3 \<and> c = 24 \<and> b = 3"
    using mod_zero_offset[OF r400, of a] e400 by simp
  show ?thesis
    unfolding is_leap_def Y_def[symmetric] using 4 100 400 by auto
qed

lemma ord2ymd_unfold:
  fixes n :: int
  defines "n0 \<equiv> n - 1"
  defines "a \<equiv> n0 div 146097" and "r1 \<equiv> n0 mod 146097"
  defines "b \<equiv> r1 div 36524" and "r2 \<equiv> r1 mod 36524"
  defines "c \<equiv> r2 div 1461" and "r3 \<equiv> r2 mod 1461"
  defines "d1 \<equiv> r3 div 365" and "e \<equiv> r3 mod 365"
  shows "ord2ymd n =
    (if d1 = 4 \<or> b = 4 then (a * 400 + 1 + b * 100 + c * 4 + d1 - 1, 12, 31)
     else case month_day (d1 = 3 \<and> (c \<noteq> 24 \<or> b = 3)) e of
            (m, d) \<Rightarrow> (a * 400 + 1 + b * 100 + c * 4 + d1, m, d))"
  unfolding ord2ymd_def Let_def DI400Y_def DI100Y_def DI4Y_def
    n0_def a_def r1_def b_def r2_def c_def r3_def d1_def e_def
  by (rule refl)

lemma ord2ymd_ok:
  assumes "1 \<le> n" "n \<le> MAXORDINAL" "ord2ymd n = (y, m, d)"
  shows "MINYEAR \<le> y \<and> y \<le> MAXYEAR \<and> 1 \<le> m \<and> m \<le> 12 \<and> 1 \<le> d
         \<and> d \<le> days_in_month y m \<and> ymd2ord y m d = n"
proof -
  define n0 where "n0 = n - 1"
  define a where "a = n0 div 146097" define r1 where "r1 = n0 mod 146097"
  define b where "b = r1 div 36524" define r2 where "r2 = r1 mod 36524"
  define c where "c = r2 div 1461" define r3 where "r3 = r2 mod 1461"
  define d1 where "d1 = r3 div 365" define e where "e = r3 mod 365"
  have n0: "0 \<le> n0" using assms(1) by (simp add: n0_def)
  note yp = year_part[OF n0, folded a_def r1_def, folded b_def r2_def, folded c_def r3_def,
      folded d1_def e_def]
  note unf = ord2ymd_unfold[of n, folded n0_def, folded a_def r1_def, folded b_def r2_def,
      folded c_def r3_def, folded d1_def e_def]
  have n: "n = 146097 * a + 36524 * b + 1461 * c + 365 * d1 + e + 1"
    using yp(1) by (simp add: n0_def)
  have a24: "a \<le> 24" using n assms(2) yp unfolding MAXORDINAL_def by linarith
  show ?thesis
  proof (cases "b = 4")
    case True
    then have z: "c = 0" "d1 = 0" "e = 0" using yp(11) by simp_all
    have y: "y = 400 * a + 100 * 3 + 4 * 24 + 3 + 1" "m = 12" "d = 31"
      using unf assms(3) True z by simp_all
    have dby: "days_before_year y = 146097 * a + 36524 * 3 + 1461 * 24 + 365 * 3"
      unfolding y(1) by (rule dby_cycles) simp_all
    have lp: "is_leap y" unfolding y(1) by (subst leap_cycles) simp_all
    have "a \<le> 23" using n assms(2) True z yp(2) unfolding MAXORDINAL_def by linarith
    then have "y \<le> MAXYEAR" "MINYEAR \<le> y"
      using y(1) yp(2) by (simp_all add: MAXYEAR_def MINYEAR_def)
    moreover have "ymd2ord y m d = n"
      using dby lp n True z
      by (simp add: ymd2ord_def days_before_month_def y(2,3) DAYS_BEFORE_MONTH_def)
    moreover have "d \<le> days_in_month y m"
      by (simp add: y(2,3) days_in_month_def DAYS_IN_MONTH_def)
    ultimately show ?thesis by (simp add: y(2,3))
  next
    case b4: False
    then have b3: "b \<le> 3" using yp(4) by simp
    show ?thesis
    proof (cases "d1 = 4")
      case True
      then have z: "e = 0" "c \<le> 23" using yp(12) by simp_all
      have y: "y = 400 * a + 100 * b + 4 * c + 3 + 1" "m = 12" "d = 31"
        using unf assms(3) True by simp_all
      have dby: "days_before_year y = 146097 * a + 36524 * b + 1461 * c + 365 * 3"
        unfolding y(1) by (rule dby_cycles) (use yp b3 z in simp_all)
      have lp: "is_leap y" unfolding y(1) by (subst leap_cycles) (use yp b3 z in simp_all)
      have "y \<le> MAXYEAR" "MINYEAR \<le> y"
        using y(1) yp(2,3,5) a24 b3 z n assms(2) unfolding MAXYEAR_def MINYEAR_def MAXORDINAL_def
        by linarith+
      moreover have "ymd2ord y m d = n"
        using dby lp n True z
        by (simp add: ymd2ord_def days_before_month_def y(2,3) DAYS_BEFORE_MONTH_def)
      moreover have "d \<le> days_in_month y m"
        by (simp add: y(2,3) days_in_month_def DAYS_IN_MONTH_def)
      ultimately show ?thesis by (simp add: y(2,3))
    next
      case False
      then have d3: "d1 \<le> 3" using yp(8) by simp
      define lp where "lp = (d1 = 3 \<and> (c \<noteq> 24 \<or> b = 3))"
      have y: "y = 400 * a + 100 * b + 4 * c + d1 + 1" and md: "month_day lp e = (m, d)"
        using unf assms(3) False b4 by (auto simp: lp_def split: prod.splits)
      have dby: "days_before_year y = 146097 * a + 36524 * b + 1461 * c + 365 * d1"
        unfolding y by (rule dby_cycles) (use yp b3 d3 in simp_all)
      have leap: "is_leap y = lp"
        unfolding y lp_def by (rule leap_cycles) (use yp b3 d3 in simp_all)
      note mdo = month_day_ok[OF yp(9) yp(10) md]
      have "y \<le> MAXYEAR" "MINYEAR \<le> y"
        using y yp(2,3,5,6,7,9) a24 b3 d3 n assms(2) unfolding MAXYEAR_def MINYEAR_def MAXORDINAL_def
        by linarith+
      moreover have "ymd2ord y m d = n"
        using dby leap n mdo by (simp add: ymd2ord_def days_before_month_def)
      moreover have "d \<le> days_in_month y m"
        using mdo leap by (simp add: days_in_month_def)
      ultimately show ?thesis using mdo by simp
    qed
  qed
qed

lemma fromordinal_ok:
  assumes "1 \<le> n" "n \<le> MAXORDINAL"
  shows "\<exists>d. fromordinal n = Inr d \<and> valid_date d \<and> toordinal d = n"
proof -
  obtain y m d where ymd: "ord2ymd n = (y, m, d)" by (cases "ord2ymd n") auto
  note ok = ord2ymd_ok[OF assms ymd]
  have "fromordinal n = Inr \<lparr>year = y, month = m, day = d\<rparr>"
    using ok by (simp add: fromordinal_def ymd date_new_def)
  moreover have "valid_date \<lparr>year = y, month = m, day = d\<rparr>"
    using ok by (simp add: valid_date_def)
  moreover have "toordinal \<lparr>year = y, month = m, day = d\<rparr> = n"
    using ok by (simp add: toordinal_def)
  ultimately show ?thesis by blast
qed

lemma div_step:
  fixes x k :: int
  assumes "0 < k"
  shows "(x + 1) div k = x div k + (if (x + 1) mod k = 0 then 1 else 0)"
proof -
  define q where "q = x div k"
  define r where "r = x mod k"
  have x: "x = k * q + r" and r: "0 \<le> r" "r < k"
    using assms by (simp_all add: q_def r_def)
  show ?thesis
  proof (cases "r + 1 = k")
    case True
    then have e: "x + 1 = k * (q + 1) + 0" using x by (simp add: algebra_simps)
    have "(x + 1) div k = q + 1"
      by (rule int_div_pos_eq[OF e]) (use assms in simp_all)
    moreover have "(x + 1) mod k = 0"
      by (rule int_mod_pos_eq[OF e]) (use assms in simp_all)
    ultimately show ?thesis by (simp add: q_def)
  next
    case False
    then have lt: "r + 1 < k" using r by simp
    have e: "x + 1 = k * q + (r + 1)" using x by simp
    have "(x + 1) div k = q"
      by (rule int_div_pos_eq[OF e]) (use r lt in simp_all)
    moreover have "(x + 1) mod k = r + 1"
      by (rule int_mod_pos_eq[OF e]) (use r lt in simp_all)
    ultimately show ?thesis using r by (simp add: q_def)
  qed
qed

lemma leap_dvd: "is_leap y = (4 dvd y \<and> (\<not> 100 dvd y \<or> 400 dvd y))"
  unfolding is_leap_def mod_eq_0_iff_dvd by (rule refl)

lemma dby_Suc:
  "days_before_year (y + 1) = days_before_year y + 365 + (if is_leap y then 1 else 0)"
proof -
  define Y where "Y = y - 1"
  define q4 q100 q400 where "q4 = Y div 4" and "q100 = Y div 100" and "q400 = Y div 400"
  define l4 l100 l400 :: int where "l4 = (if 4 dvd y then 1 else 0)"
    and "l100 = (if 100 dvd y then 1 else 0)" and "l400 = (if 400 dvd y then 1 else 0)"
  have y: "y = Y + 1" by (simp add: Y_def)
  have d4: "y div 4 = q4 + l4"
    unfolding y q4_def l4_def using div_step[of 4 Y] unfolding mod_eq_0_iff_dvd by simp
  have d100: "y div 100 = q100 + l100"
    unfolding y q100_def l100_def using div_step[of 100 Y] unfolding mod_eq_0_iff_dvd by simp
  have d400: "y div 400 = q400 + l400"
    unfolding y q400_def l400_def using div_step[of 400 Y] unfolding mod_eq_0_iff_dvd by simp
  have i1: "400 dvd y \<Longrightarrow> 100 dvd y" by (rule dvd_trans[of 100 400]) simp_all
  have i2: "100 dvd y \<Longrightarrow> 4 dvd y" by (rule dvd_trans[of 4 100]) simp_all
  have L: "l4 - l100 + l400 = (if is_leap y then 1 else 0)"
    unfolding leap_dvd l4_def l100_def l400_def using i1 i2
    by (cases "4 dvd y"; cases "100 dvd y"; cases "400 dvd y") simp_all
  have A: "days_before_year (y + 1) = y * 365 + (q4 + l4) - (q100 + l100) + (q400 + l400)"
    using d4 d100 d400 by (simp add: days_before_year_def)
  have B: "days_before_year y = Y * 365 + q4 - q100 + q400"
    by (simp add: days_before_year_def Let_def Y_def q4_def q100_def q400_def)
  show ?thesis by (simp only: A B L[symmetric]) (simp add: y algebra_simps)
qed

lemma dbm_day_bound:
  assumes "1 \<le> m" "m \<le> 12" "1 \<le> d" "d \<le> days_in_month y m"
  shows "1 \<le> days_before_month y m + d"
    and "days_before_month y m + d \<le> 365 + (if is_leap y then 1 else 0)"
proof -
  have "m = 1 \<or> m = 2 \<or> m = 3 \<or> m = 4 \<or> m = 5 \<or> m = 6 \<or> m = 7 \<or> m = 8 \<or> m = 9 \<or> m = 10 \<or> m = 11 \<or> m = 12"
    using assms(1,2) by (rule month_cases)
  then show "1 \<le> days_before_month y m + d"
    and "days_before_month y m + d \<le> 365 + (if is_leap y then 1 else 0)"
    using assms(3,4)
    by (auto simp: days_before_month_def days_in_month_def DAYS_BEFORE_MONTH_def
        DAYS_IN_MONTH_def split: if_splits)
qed

lemma dby_decomp:
  fixes Y :: int
  assumes "0 \<le> Y"
  shows "\<exists>a b c d1. 0 \<le> a \<and> 0 \<le> b \<and> b \<le> 3 \<and> 0 \<le> c \<and> c \<le> 24 \<and> 0 \<le> d1 \<and> d1 \<le> 3
           \<and> Y = 400 * a + 100 * b + 4 * c + d1
           \<and> days_before_year (Y + 1) = 146097 * a + 36524 * b + 1461 * c + 365 * d1"
proof -
  define a where "a = Y div 400" define r where "r = Y mod 400"
  define b where "b = r div 100" define r' where "r' = r mod 100"
  define c where "c = r' div 4" define d1 where "d1 = r' mod 4"
  have 1: "Y = 400 * a + r" "0 \<le> r" "r < 400" by (simp_all add: a_def r_def)
  have 2: "r = 100 * b + r'" "0 \<le> r'" "r' < 100" by (simp_all add: b_def r'_def)
  have 3: "r' = 4 * c + d1" "0 \<le> d1" "d1 < 4" by (simp_all add: c_def d1_def)
  have a0: "0 \<le> a" using assms by (simp add: a_def pos_imp_zdiv_nonneg_iff)
  have b0: "0 \<le> b" using 1(2) by (simp add: b_def pos_imp_zdiv_nonneg_iff)
  have c0: "0 \<le> c" using 2(2) by (simp add: c_def pos_imp_zdiv_nonneg_iff)
  have b3: "b \<le> 3" using 1(3) 2(1,2) by linarith
  have c24: "c \<le> 24" using 2(3) 3(1,2) by linarith
  have d3: "d1 \<le> 3" using 3(3) by simp
  have Y: "Y = 400 * a + 100 * b + 4 * c + d1" using 1(1) 2(1) 3(1) by simp
  have "days_before_year (400 * a + 100 * b + 4 * c + d1 + 1)
      = 146097 * a + 36524 * b + 1461 * c + 365 * d1"
    by (rule dby_cycles) (use b0 b3 c0 c24 3(2) d3 in simp_all)
  then show ?thesis using a0 b0 b3 c0 c24 3(2) d3 Y by blast
qed

lemma dby_nonneg:
  assumes "1 \<le> y"
  shows "0 \<le> days_before_year y"
proof -
  have "0 \<le> y - 1" using assms by simp
  from dby_decomp[OF this] obtain a b c d1 where
    "0 \<le> a" "0 \<le> b" "0 \<le> c" "0 \<le> d1"
    "days_before_year (y - 1 + 1) = 146097 * a + 36524 * b + 1461 * c + 365 * d1"
    by blast
  then show ?thesis by simp
qed

lemma dby_upper:
  assumes "0 \<le> y" "y \<le> 9999"
  shows "days_before_year (y + 1) \<le> 3652059"
proof -
  from dby_decomp[OF assms(1)] obtain a b c d1 where
    h: "0 \<le> a" "0 \<le> b" "b \<le> 3" "0 \<le> c" "c \<le> 24" "0 \<le> d1" "d1 \<le> 3"
    "y = 400 * a + 100 * b + 4 * c + d1"
    "days_before_year (y + 1) = 146097 * a + 36524 * b + 1461 * c + 365 * d1"
    by blast
  have "a \<le> 24" using h(2,4,6,8) assms(2) by linarith
  then show ?thesis using h by linarith
qed

lemma toordinal_bounds:
  assumes "valid_date d"
  shows "1 \<le> toordinal d" and "toordinal d \<le> MAXORDINAL"
proof -
  have v: "1 \<le> year d" "year d \<le> 9999" "1 \<le> month d" "month d \<le> 12" "1 \<le> day d"
    "day d \<le> days_in_month (year d) (month d)"
    using assms by (simp_all add: valid_date_def MINYEAR_def MAXYEAR_def)
  note md = dbm_day_bound[OF v(3,4,5,6)]
  have lo: "0 \<le> days_before_year (year d)" using v(1) by (rule dby_nonneg)
  have hi: "days_before_year (year d + 1) \<le> 3652059" using v(1,2) by (intro dby_upper) simp_all
  show "1 \<le> toordinal d" using lo md(1) by (simp add: toordinal_def ymd2ord_def)
  show "toordinal d \<le> MAXORDINAL"
    using hi md(2) dby_Suc[of "year d"]
    by (simp add: toordinal_def ymd2ord_def MAXORDINAL_def split: if_splits)
qed

lemma next_year_ordinal:
  assumes "1 \<le> m" "m \<le> 12"
  shows "ymd2ord y m d + 365 \<le> ymd2ord (y + 1) m d"
proof -
  have "days_before_month y m \<le> days_before_month (y + 1) m + (if is_leap y then 1 else 0)"
    by (simp add: days_before_month_def)
  then show ?thesis using dby_Suc[of y] by (simp add: ymd2ord_def split: if_splits)
qed

lemma weekend_shift_in_range:
  assumes "1 \<le> n" "n \<le> MAXORDINAL" "(n + 6) mod 7 = 5 \<or> (n + 6) mod 7 = 6"
  shows "0 < n + (7 - (n + 6) mod 7)" and "n + (7 - (n + 6) mod 7) \<le> MAXORDINAL"
    and "(n + (7 - (n + 6) mod 7) + 6) mod 7 = 0"
  using assms unfolding MAXORDINAL_def by presburger+

section \<open>Lemmas about the loop\<close>

text \<open>
  The loop never ends with an exception: the \<^verbatim>\<open>try\<close> body raises \<^verbatim>\<open>ValueError\<close>
  only, and moving a weekend date to Monday stays within the range of dates. With a
  clock that shows \<open>today\<close> throughout, a name is in the bucket of \<open>w\<close> exactly when
  one of its items is congratulated on \<open>w\<close>.
\<close>

lemma date_new_Inl: "date_new y m d = Inl e \<Longrightarrow> e = ValueError"
  by (auto simp: date_new_def split: if_splits)

lemma date_new_Inr:
  assumes "date_new y m d = Inr x"
  shows "x = \<lparr>year = y, month = m, day = d\<rparr>" and "valid_date x"
  using assms by (auto simp: date_new_def valid_date_def split: if_splits)

lemma date_new_valid: "valid_date d \<Longrightarrow> date_new (year d) (month d) (day d) = Inr d"
  by (simp add: date_new_def valid_date_def)

lemma next_birthday_Inl: "next_birthday today b = Inl e \<Longrightarrow> e = ValueError"
  by (auto simp: next_birthday_def replace_year_def split: sum.splits if_splits
      dest: date_new_Inl)

lemma next_birthday_valid: "next_birthday today b = Inr nb \<Longrightarrow> valid_date nb"
  by (auto simp: next_birthday_def replace_year_def split: sum.splits if_splits
      dest: date_new_Inr(2))

lemma date_add_days_ok:
  assumes "0 < toordinal d + n" "toordinal d + n \<le> MAXORDINAL"
  shows "\<exists>x. date_add_days d n = Inr x \<and> valid_date x \<and> toordinal x = toordinal d + n"
  using fromordinal_ok[of "toordinal d + n"] assms by (simp add: date_add_days_def Let_def)

lemma date_to_congratulate_ok:
  assumes "valid_date nb"
  shows "\<exists>dc. date_to_congratulate nb = Inr dc \<and> valid_date dc
           \<and> toordinal dc = toordinal nb
                + (if weekday nb = 5 \<or> weekday nb = 6 then 7 - weekday nb else 0)
           \<and> (weekday nb = 5 \<or> weekday nb = 6 \<longrightarrow> weekday dc = 0)"
proof (cases "weekday nb = 5 \<or> weekday nb = 6")
  case False
  then show ?thesis using assms by (simp add: date_to_congratulate_def)
next
  case True
  note b = toordinal_bounds[OF assms]
  have w: "(toordinal nb + 6) mod 7 = 5 \<or> (toordinal nb + 6) mod 7 = 6"
    using True by (simp add: weekday_def)
  note s = weekend_shift_in_range[OF b w]
  from date_add_days_ok[of nb "7 - weekday nb"] s(1,2)
  obtain x where x: "date_add_days nb (7 - weekday nb) = Inr x" "valid_date x"
    "toordinal x = toordinal nb + (7 - weekday nb)"
    by (auto simp: weekday_def)
  have "weekday x = 0" using s(3) x(3) by (simp add: weekday_def)
  then show ?thesis using True x by (auto simp: date_to_congratulate_def Let_def)
qed

lemma date_to_congratulate_Inr: "valid_date nb \<Longrightarrow> date_to_congratulate nb \<noteq> Inl e"
  using date_to_congratulate_ok[of nb] by auto

lemma contributes_Nil: "\<not> contributes today [] w x"
  by (simp add: contributes_def)

lemma contributes_Cons:
  "contributes today ((nm, r) # book) w x \<longleftrightarrow>
     (x = nm \<and> (\<exists>b. birthday r = Some b \<and> congratulated today b w))
     \<or> contributes today book w x"
  by (auto simp: contributes_def)

lemma bucket_append_mem:
  "x \<in> set (bucket (bucket_append up w nm) w') \<longleftrightarrow>
     x \<in> set (bucket up w') \<or> (w' = w \<and> x = nm)"
  by (auto simp: bucket_append_def bucket_def)

lemma loop_done:
  "\<not> k < length data \<Longrightarrow> birthdays_loop clk i k upcoming data = (Inr upcoming, data)"
  by (subst birthdays_loop.simps) simp

lemma loop_item:
  assumes "k < length data" "data ! k = (nm, r)"
  shows "birthdays_loop clk i k upcoming data =
     (case birthday r of
        None \<Rightarrow> birthdays_loop clk i (Suc k) upcoming data
      | Some b \<Rightarrow>
          (case next_birthday (clk i) b of
             Inl e \<Rightarrow>
               if is_ValueError e
               then birthdays_loop clk (Suc i) (Suc k) upcoming data
               else (Inl e, data)
           | Inr nb \<Rightarrow>
               (case date_to_congratulate nb of
                  Inl e \<Rightarrow> (Inl e, data)
                | Inr dc \<Rightarrow>
                    if days_between dc (clk i) > 7
                    then birthdays_loop clk (Suc i) (Suc k) upcoming data
                    else birthdays_loop clk (Suc i) (Suc k)
                           (bucket_append upcoming (weekday dc) nm) data)))"
  by (subst birthdays_loop.simps) (simp add: assms Let_def split: option.split sum.split)

lemma drop_item: "k < length data \<Longrightarrow> drop k data = data ! k # drop (Suc k) data"
  by (simp add: Cons_nth_drop_Suc)

text \<open>Every branch of the body hands on the book it received, so the loop does.\<close>

lemma loop_frame: "snd (birthdays_loop clk i k upcoming data) = data"
proof (induction "length data - k" arbitrary: i k upcoming)
  case 0
  then have "\<not> k < length data" by simp
  then show ?case by (simp add: loop_done)
next
  case (Suc n)
  then have lt: "k < length data" and n: "n = length data - Suc k" by simp_all
  obtain nm r where item: "data ! k = (nm, r)" by (cases "data ! k")
  note IH = Suc.hyps(1)[OF n]
  show ?case
  proof (cases "birthday r")
    case None
    then show ?thesis using IH by (simp add: loop_item[OF lt item])
  next
    case (Some b)
    show ?thesis
    proof (cases "next_birthday (clk i) b")
      case (Inl e)
      then show ?thesis using Some IH by (simp add: loop_item[OF lt item])
    next
      case (Inr nb)
      show ?thesis
      proof (cases "date_to_congratulate nb")
        case (Inl e)
        then show ?thesis using Some Inr by (simp add: loop_item[OF lt item])
      next
        case dc: (Inr dc)
        then show ?thesis using Some Inr IH by (simp add: loop_item[OF lt item])
      qed
    qed
  qed
qed

lemma loop_const:
  "\<exists>res. fst (birthdays_loop (\<lambda>_. today) i k acc data) = Inr res
     \<and> (\<forall>w x. x \<in> set (bucket res w) \<longleftrightarrow>
            x \<in> set (bucket acc w) \<or> contributes today (drop k data) w x)"
proof (induction "length data - k" arbitrary: i k acc)
  case 0
  then have "\<not> k < length data" by simp
  then show ?case by (simp add: loop_done contributes_Nil)
next
  case (Suc n)
  then have lt: "k < length data" and n: "n = length data - Suc k" by simp_all
  obtain nm r where item: "data ! k = (nm, r)" by (cases "data ! k")
  have d: "drop k data = (nm, r) # drop (Suc k) data" using drop_item[OF lt] item by simp
  note IH = Suc.hyps(1)[OF n]
  note step = loop_item[OF lt item, of "\<lambda>_. today"]
  show ?case
  proof (cases "birthday r")
    case None
    from IH[of i acc] obtain res where
      res: "fst (birthdays_loop (\<lambda>_. today) i (Suc k) acc data) = Inr res"
      "\<forall>w x. x \<in> set (bucket res w) \<longleftrightarrow>
         x \<in> set (bucket acc w) \<or> contributes today (drop (Suc k) data) w x"
      by blast
    have "fst (birthdays_loop (\<lambda>_. today) i k acc data) = Inr res"
      using None res(1) by (simp add: step)
    then show ?thesis using res(2) None by (simp add: d contributes_Cons)
  next
    case (Some b)
    show ?thesis
    proof (cases "next_birthday today b")
      case (Inl e)
      then have e: "e = ValueError" by (rule next_birthday_Inl)
      from IH[of "Suc i" acc] obtain res where
        res: "fst (birthdays_loop (\<lambda>_. today) (Suc i) (Suc k) acc data) = Inr res"
        "\<forall>w x. x \<in> set (bucket res w) \<longleftrightarrow>
           x \<in> set (bucket acc w) \<or> contributes today (drop (Suc k) data) w x"
        by blast
      have "fst (birthdays_loop (\<lambda>_. today) i k acc data) = Inr res"
        using Some Inl e res(1) by (simp add: step is_ValueError_def)
      moreover have "\<not> congratulated today b w" for w
        using Inl by (simp add: congratulated_def)
      ultimately show ?thesis using res(2) Some by (simp add: d contributes_Cons)
    next
      case (Inr nb)
      then have "valid_date nb" by (rule next_birthday_valid)
      from date_to_congratulate_ok[OF this] obtain dc where
        dc: "date_to_congratulate nb = Inr dc" by blast
      show ?thesis
      proof (cases "days_between dc today > 7")
        case True
        from IH[of "Suc i" acc] obtain res where
          res: "fst (birthdays_loop (\<lambda>_. today) (Suc i) (Suc k) acc data) = Inr res"
          "\<forall>w x. x \<in> set (bucket res w) \<longleftrightarrow>
             x \<in> set (bucket acc w) \<or> contributes today (drop (Suc k) data) w x"
          by blast
        have "fst (birthdays_loop (\<lambda>_. today) i k acc data) = Inr res"
          using Some Inr dc True res(1) by (simp add: step)
        moreover have "\<not> congratulated today b w" for w
          using Inr dc True by (simp add: congratulated_def)
        ultimately show ?thesis using res(2) Some by (simp add: d contributes_Cons)
      next
        case False
        from IH[of "Suc i" "bucket_append acc (weekday dc) nm"] obtain res where
          res: "fst (birthdays_loop (\<lambda>_. today) (Suc i) (Suc k)
                  (bucket_append acc (weekday dc) nm) data) = Inr res"
          "\<forall>w x. x \<in> set (bucket res w) \<longleftrightarrow>
             x \<in> set (bucket (bucket_append acc (weekday dc) nm) w)
             \<or> contributes today (drop (Suc k) data) w x"
          by blast
        have "fst (birthdays_loop (\<lambda>_. today) i k acc data) = Inr res"
          using Some Inr dc False res(1) by (simp add: step)
        moreover have "congratulated today b w \<longleftrightarrow> w = weekday dc" for w
          using Inr dc False by (auto simp: congratulated_def)
        ultimately show ?thesis
          using res(2) Some by (auto simp: d contributes_Cons bucket_append_mem)
      qed
    qed
  qed
qed

lemma loop_agree:
  assumes "\<forall>j < clock_reads (drop k data). clkA (i + j) = clkB (i + j)"
  shows "birthdays_loop clkA i k acc data = birthdays_loop clkB i k acc data"
  using assms
proof (induction "length data - k" arbitrary: i k acc)
  case 0
  then have "\<not> k < length data" by simp
  then show ?case by (simp add: loop_done)
next
  case (Suc n)
  then have lt: "k < length data" and n: "n = length data - Suc k" by simp_all
  obtain nm r where item: "data ! k = (nm, r)" by (cases "data ! k")
  have d: "drop k data = (nm, r) # drop (Suc k) data" using drop_item[OF lt] item by simp
  note IH = Suc.hyps(1)[OF n]
  show ?case
  proof (cases "birthday r")
    case None
    then have "\<forall>j < clock_reads (drop (Suc k) data). clkA (i + j) = clkB (i + j)"
      using Suc.prems by (simp add: d clock_reads_def)
    from IH[OF this] show ?thesis using None by (simp add: loop_item[OF lt item])
  next
    case (Some b)
    have 0: "clkA i = clkB i"
      using Suc.prems[rule_format, of 0] Some by (simp add: d clock_reads_def)
    have "\<forall>j < clock_reads (drop (Suc k) data). clkA (Suc i + j) = clkB (Suc i + j)"
    proof (intro allI impI)
      fix j assume "j < clock_reads (drop (Suc k) data)"
      then have "Suc j < clock_reads (drop k data)" using Some by (simp add: d clock_reads_def)
      from Suc.prems[rule_format, OF this] show "clkA (Suc i + j) = clkB (Suc i + j)" by simp
    qed
    from IH[OF this] show ?thesis
      using Some 0 by (simp add: loop_item[OF lt item] split: sum.splits)
  qed
qed

lemma bucket_empty: "bucket Map.empty w = []"
  by (simp add: bucket_def)

lemma query_const:
  "\<exists>res. fst (get_birthdays_per_week (steady_clock today) book) = Inr res
     \<and> (\<forall>w x. x \<in> set (bucket res w) \<longleftrightarrow> contributes today book w x)"
proof -
  from loop_const[of today 0 0 Map.empty book] obtain res where
    r: "fst (birthdays_loop (\<lambda>_. today) 0 0 Map.empty book) = Inr res"
    "\<forall>w x. x \<in> set (bucket res w) \<longleftrightarrow>
       x \<in> set (bucket Map.empty w) \<or> contributes today book w x"
    by auto
  have "fst (get_birthdays_per_week (steady_clock today) book) = Inr res"
    using r(1) by (simp add: get_birthdays_per_week_def steady_clock_def)
  moreover have "\<forall>w x. x \<in> set (bucket res w) \<longleftrightarrow> contributes today book w x"
    using r(2) by (simp add: bucket_empty)
  ultimately show ?thesis by blast
qed

lemma contributes_distinct:
  assumes "distinct (map fst book)" "(nm, r) \<in> set book"
  shows "contributes today book w nm \<longleftrightarrow> (\<exists>b. birthday r = Some b \<and> congratulated today b w)"
proof
  assume "contributes today book w nm"
  then obtain r' b where h: "(nm, r') \<in> set book" "birthday r' = Some b" "congratulated today b w"
    unfolding contributes_def by blast
  have "r' = r" using eq_key_imp_eq_value[OF assms(1) h(1) assms(2)] .
  then show "\<exists>b. birthday r = Some b \<and> congratulated today b w" using h(2,3) by blast
next
  assume "\<exists>b. birthday r = Some b \<and> congratulated today b w"
  then show "contributes today book w nm" unfolding contributes_def using assms(2) by blast
qed

lemma excluded:
  assumes "distinct (map fst book)" "(nm, r) \<in> set book" "birthday r = Some b"
    "\<And>w. \<not> congratulated today b w"
  shows "\<exists>res. fst (get_birthdays_per_week (steady_clock today) book) = Inr res
           \<and> (\<forall>w. nm \<notin> set (bucket res w))"
proof -
  from query_const[of today book] obtain res where
    r: "fst (get_birthdays_per_week (steady_clock today) book) = Inr res"
    "\<forall>w x. x \<in> set (bucket res w) \<longleftrightarrow> contributes today book w x"
    by blast
  have "\<not> contributes today book w nm" for w
    unfolding contributes_distinct[OF assms(1,2)] using assms(3,4) by simp
  then show ?thesis using r by blast
qed

lemma next_birthday_feb29:
  assumes "month b = 2" "day b = 29"
    "\<not> is_leap (year today)
     \<or> (date_le \<lparr>year = year today, month = 2, day = 29\<rparr> today \<and> \<not> is_leap (year today + 1))"
  shows "next_birthday today b = Inl ValueError"
proof -
  have nl: "date_new y 2 29 = Inl ValueError" if "\<not> is_leap y" for y
    using that by (simp add: date_new_def days_in_month_def DAYS_IN_MONTH_def)
  show ?thesis
  proof (cases "replace_year b (year today)")
    case (Inl e)
    then have "e = ValueError" unfolding replace_year_def by (rule date_new_Inl)
    then show ?thesis using Inl by (simp add: next_birthday_def)
  next
    case (Inr nb)
    then have nb: "nb = \<lparr>year = year today, month = 2, day = 29\<rparr>"
      using date_new_Inr(1)[of "year today" 2 29 nb] assms(1,2) by (simp add: replace_year_def)
    have "is_leap (year today)"
      using Inr nl[of "year today"] assms(1,2) by (auto simp: replace_year_def)
    then have "date_le nb today" "\<not> is_leap (year today + 1)" using assms(3) nb by simp_all
    then show ?thesis
      using Inr nl[of "year today + 1"] by (simp add: next_birthday_def replace_year_def nb)
  qed
qed

lemma same_day_next_birthday:
  assumes "valid_date today" "month b = month today" "day b = day today"
  shows "next_birthday today b = date_new (year today + 1) (month b) (day b)"
proof -
  have "replace_year b (year today) = Inr today"
    using date_new_valid[OF assms(1)] assms(2,3) by (simp add: replace_year_def)
  then show ?thesis by (simp add: next_birthday_def date_le_def replace_year_def assms(2,3))
qed

lemma same_day_not_congratulated:
  assumes "month b = month today" "day b = day today"
  shows "\<not> congratulated today b w"
proof (cases "next_birthday today b")
  case (Inl e)
  then show ?thesis by (simp add: congratulated_def)
next
  case (Inr nb)
  have r1: "replace_year b (year today) = Inr today" and m: "1 \<le> month today" "month today \<le> 12"
    and nb: "nb = \<lparr>year = year today + 1, month = month today, day = day today\<rparr>"
  proof -
    obtain nb0 where nb0: "replace_year b (year today) = Inr nb0"
      using Inr by (auto simp: next_birthday_def split: sum.splits)
    then have e: "nb0 = today" and v: "valid_date nb0"
      using date_new_Inr[of "year today" "month b" "day b" nb0] assms
      by (simp_all add: replace_year_def)
    show "replace_year b (year today) = Inr today" using nb0 e by simp
    show "1 \<le> month today" "month today \<le> 12" using v e by (simp_all add: valid_date_def)
    have "next_birthday today b = date_new (year today + 1) (month today) (day today)"
      using nb0 e by (simp add: next_birthday_def date_le_def replace_year_def)
    then show "nb = \<lparr>year = year today + 1, month = month today, day = day today\<rparr>"
      using Inr date_new_Inr(1) by simp
  qed
  have v: "valid_date nb" using Inr by (rule next_birthday_valid)
  from date_to_congratulate_ok[OF v] obtain dc where
    dc0: "date_to_congratulate nb = Inr dc"
    "toordinal dc = toordinal nb
       + (if weekday nb = 5 \<or> weekday nb = 6 then 7 - weekday nb else 0)"
    by blast
  have dc: "date_to_congratulate nb = Inr dc" "toordinal nb \<le> toordinal dc"
    using dc0 by (cases "weekday nb = 5 \<or> weekday nb = 6"; auto)+
  have "toordinal today + 365 \<le> toordinal nb"
    using next_year_ordinal[OF m, of "year today" "day today"] by (simp add: toordinal_def nb)
  then have "days_between dc today > 7" using dc(2) by (simp add: days_between_def)
  then show ?thesis using Inr dc(1) by (simp add: congratulated_def)
qed

section \<open>Lemmas about the book\<close>

lemma key_in_image: "(k, v) \<in> set kvs \<Longrightarrow> k \<in> fst ` set kvs"
  by force

lemma setitem_keys:
  "map fst (dict_setitem k v kvs) = (if k \<in> fst ` set kvs then map fst kvs else map fst kvs @ [k])"
  by (induction kvs) (auto dest: key_in_image)

lemma setitem_set:
  "set (dict_setitem k v kvs) \<subseteq> insert (k, v) (set kvs)"
  by (induction kvs) (auto split: if_splits)

lemma setitem_distinct: "distinct (map fst kvs) \<Longrightarrow> distinct (map fst (dict_setitem k v kvs))"
  by (simp add: setitem_keys)

lemma setitem_filter:
  "distinct (map fst kvs) \<Longrightarrow> filter (\<lambda>(k', v'). k' = k) (dict_setitem k v kvs) = [(k, v)]"
proof (induction kvs)
  case Nil
  then show ?case by simp
next
  case (Cons p kvs)
  obtain k' v' where p: "p = (k', v')" by (cases p)
  show ?case
  proof (cases "k' = k")
    case True
    then have "k \<notin> fst ` set kvs" using Cons.prems by (simp add: p)
    then have "filter (\<lambda>(k', v'). k' = k) kvs = []"
      by (auto simp: filter_empty_conv dest: key_in_image)
    then show ?thesis using True by (simp add: p)
  next
    case False
    then show ?thesis using Cons by (simp add: p)
  qed
qed

lemma setitem_length:
  "length (dict_setitem k v kvs) = (if k \<in> fst ` set kvs then length kvs else length kvs + 1)"
  by (induction kvs) (auto dest: key_in_image)

lemma setitem_other:
  "k' \<noteq> k \<Longrightarrow> filter (\<lambda>(a, b). a = k') (dict_setitem k v kvs) = filter (\<lambda>(a, b). a = k') kvs"
  by (induction kvs) auto

lemma getitem_setitem: "dict_getitem (dict_setitem k v kvs) k = Inr v"
  by (induction kvs) auto

lemma getitem_absent: "k \<notin> fst ` set kvs \<Longrightarrow> dict_getitem kvs k = Inl KeyError"
  by (induction kvs) auto

lemma getitem_mem: "dict_getitem kvs k = Inr v \<Longrightarrow> (k, v) \<in> set kvs"
  by (induction kvs) (auto split: if_splits)

lemma pop_absent: "k \<notin> fst ` set kvs \<Longrightarrow> dict_pop kvs k = Inl KeyError"
  by (induction kvs) auto

lemma pop_Inl: "dict_pop kvs k = Inl e \<Longrightarrow> e = KeyError"
  by (induction kvs) (auto split: if_splits sum.splits)

lemma pop_Inr:
  "dict_pop kvs k = Inr (v, kvs') \<Longrightarrow> set kvs' \<subseteq> set kvs \<and> (distinct (map fst kvs) \<longrightarrow> distinct (map fst kvs'))"
proof (induction kvs arbitrary: kvs')
  case Nil
  then show ?case by simp
next
  case (Cons p kvs)
  obtain k' v' where p: "p = (k', v')" by (cases p)
  show ?case
  proof (cases "k' = k")
    case True
    then show ?thesis using Cons.prems by (auto simp: p)
  next
    case False
    then obtain rest where r: "dict_pop kvs k = Inr (v, rest)" "kvs' = (k', v') # rest"
      using Cons.prems by (auto simp: p split: sum.splits)
    from Cons.IH[OF r(1)] show ?thesis using r(2) by (auto simp: p)
  qed
qed

lemma keyed_setitem:
  assumes "keyed_by_name book" "name r = k"
  shows "keyed_by_name (dict_setitem k r book)"
proof -
  have "list_all (\<lambda>(k, r). name r = k) (dict_setitem k r book)"
    using assms setitem_set[of k r book] by (auto simp: keyed_by_name_def list_all_iff)
  then show ?thesis using assms(1) by (simp add: keyed_by_name_def setitem_distinct)
qed

lemma keyed_delete:
  assumes "keyed_by_name book"
  shows "keyed_by_name (snd (delete book nm))"
proof (cases "dict_pop book nm")
  case (Inl e)
  then show ?thesis using assms by (simp add: delete_def)
next
  case (Inr p)
  obtain v book' where p: "p = (v, book')" by (cases p)
  from pop_Inr[OF Inr[unfolded p]] assms
  have "keyed_by_name book'" by (auto simp: keyed_by_name_def list_all_iff)
  then show ?thesis using Inr p by (simp add: delete_def)
qed

lemma update_phone_name: "name (snd (update_phone r p)) = name r"
  by (simp add: update_phone_def split: sum.splits)

lemma add_birthday_name: "name (snd (add_birthday r s)) = name r"
  by (simp add: add_birthday_def split: sum.splits)

lemma found_name:
  assumes "keyed_by_name book" "find_record book nm = Inr r"
  shows "name r = nm"
  using getitem_mem[OF assms(2)[unfolded find_record_def]] assms(1)
  by (auto simp: keyed_by_name_def list_all_iff)

lemma reachable_keyed: "reachable book \<Longrightarrow> keyed_by_name book"
proof (induction rule: reachable.induct)
  case empty
  then show ?case by (simp add: keyed_by_name_def)
next
  case (added book r)
  then show ?case by (simp add: add_record_def keyed_setitem)
next
  case (deleted book nm)
  from deleted.IH show ?case by (rule keyed_delete)
next
  case (phone_updated book nm r p)
  then show ?case by (intro keyed_setitem) (simp_all add: update_phone_name found_name)
next
  case (birthday_added book nm r s)
  then show ?case by (intro keyed_setitem) (simp_all add: add_birthday_name found_name)
qed

section \<open>Lemmas about strings\<close>

text \<open>
  The digits \<^verbatim>\<open>0\<close> to \<^verbatim>\<open>9\<close> are digits and decimal characters of the tables, and
  the parser reads the day.month.year string of a calendar date as that date.
\<close>

lemma ascii_digit_isdigit: "ascii_digit c \<Longrightarrow> char_isdigit c"
  by (simp add: ascii_digit_def char_isdigit_def in_ranges_def digit_ranges_def)

lemma ascii_digit_isdecimal: "ascii_digit c \<Longrightarrow> char_isdecimal c"
  by (simp add: ascii_digit_def char_isdecimal_def in_ranges_def decimal_ranges_def)

lemma ascii_digit_value:
  assumes "ascii_digit c"
  shows "decimal_value c = int c - 48"
proof -
  have c: "48 \<le> c" "c \<le> 57" using assms by (simp_all add: ascii_digit_def)
  then have "(c - 48) mod 10 = c - 48" by simp
  moreover have "int (c - 48) = int c - 48" using c(1) by (simp add: of_nat_diff)
  moreover have "decimal_value c = int ((c - 48) mod 10)"
    using c by (simp add: decimal_value_def decimal_ranges_def)
  ultimately show ?thesis by simp
qed

lemma digit_isdecimal: "u \<le> 9 \<Longrightarrow> char_isdecimal (48 + u)"
  by (rule ascii_digit_isdecimal) (simp add: ascii_digit_def)

lemma digit_value: "u \<le> 9 \<Longrightarrow> decimal_value (48 + u) = int u"
  using ascii_digit_value[of "48 + u"] by (simp add: ascii_digit_def)

lemma re_dot_simps:
  "re_dot (46 # r) = [r]" "c \<noteq> 46 \<Longrightarrow> re_dot (c # r) = []" "re_dot [] = []"
  by (simp_all add: re_dot_def)

lemma strptime_digits:
  fixes d1 d2 m1 m2 y1 y2 y3 y4 :: nat
  assumes le: "d1 \<le> 9" "d2 \<le> 9" "m1 \<le> 9" "m2 \<le> 9" "y1 \<le> 9" "y2 \<le> 9" "y3 \<le> 9" "y4 \<le> 9"
    and dd: "(d1 = 3 \<and> d2 \<le> 1) \<or> d1 = 1 \<or> d1 = 2 \<or> (d1 = 0 \<and> 1 \<le> d2)"
    and mm: "(m1 = 1 \<and> m2 \<le> 2) \<or> (m1 = 0 \<and> 1 \<le> m2)"
  shows "strptime_dmY [48 + d1, 48 + d2, 46, 48 + m1, 48 + m2, 46,
                       48 + y1, 48 + y2, 48 + y3, 48 + y4]
         = date_new (int (1000 * y1 + 100 * y2 + 10 * y3 + y4)) (int (10 * m1 + m2))
             (int (10 * d1 + d2))"
proof -
  have Y: "re_Y [48 + y1, 48 + y2, 48 + y3, 48 + y4]
           = [([48 + y1, 48 + y2, 48 + y3, 48 + y4], [])]"
    using le by (simp add: re_Y_def digit_isdecimal)
  have M: "concat (map (\<lambda>(m, r3). concat (map (\<lambda>r4. map (\<lambda>(y, r5). (d, m, y, r5)) (re_Y r4))
                     (re_dot r3)))
             (re_m [48 + m1, 48 + m2, 46, 48 + y1, 48 + y2, 48 + y3, 48 + y4]))
           = [(d, [48 + m1, 48 + m2], [48 + y1, 48 + y2, 48 + y3, 48 + y4], [])]" for d
    using mm le(4) by (auto simp: re_m_def two_chars_def one_char_def re_dot_simps Y)
  have D: "re_match_dmY [48 + d1, 48 + d2, 46, 48 + m1, 48 + m2, 46,
                         48 + y1, 48 + y2, 48 + y3, 48 + y4]
           = [([48 + d1, 48 + d2], [48 + m1, 48 + m2], [48 + y1, 48 + y2, 48 + y3, 48 + y4], [])]"
    using dd le(2)
    by (auto simp: re_match_dmY_def re_d_def two_chars_def one_char_def re_dot_simps M
        digit_isdecimal)
  have i2: "py_int [48 + a, 48 + b] = int (10 * a + b)" if "a \<le> 9" "b \<le> 9" for a b
    using that by (simp add: py_int_def digit_value)
  have i4: "py_int [48 + y1, 48 + y2, 48 + y3, 48 + y4]
            = int (1000 * y1 + 100 * y2 + 10 * y3 + y4)"
    using le by (simp add: py_int_def digit_value)
  show ?thesis
    unfolding strptime_dmY_def D using le by (simp add: i2 i4 del: of_nat_add of_nat_mult)
qed

lemma days_in_month_le_31:
  assumes "1 \<le> m" "m \<le> 12"
  shows "days_in_month y m \<le> 31"
proof -
  have "m = 1 \<or> m = 2 \<or> m = 3 \<or> m = 4 \<or> m = 5 \<or> m = 6 \<or> m = 7 \<or> m = 8 \<or> m = 9 \<or> m = 10 \<or> m = 11 \<or> m = 12"
    using assms by (rule month_cases)
  then show ?thesis by (auto simp: days_in_month_def DAYS_IN_MONTH_def)
qed

lemma two_digit_split:
  fixes n :: int
  assumes "0 \<le> n" "n \<le> 99"
  shows "nat (n div 10) \<le> 9" "nat (n mod 10) \<le> 9"
    "int (10 * nat (n div 10) + nat (n mod 10)) = n"
proof -
  define q r where "q = n div 10" and "r = n mod 10"
  have e: "n = 10 * q + r" and r: "0 \<le> r" "r < 10" by (simp_all add: q_def r_def)
  have q: "0 \<le> q" "q \<le> 9" using assms e r by linarith+
  have 1: "nat q \<le> 9" using q by simp
  have 2: "nat r \<le> 9" using r by simp
  have "int (10 * nat q + nat r) = 10 * q + r" using q(1) r(1) by simp
  then have 3: "int (10 * nat q + nat r) = n" using e by simp
  show "nat (n div 10) \<le> 9" using 1 unfolding q_def .
  show "nat (n mod 10) \<le> 9" using 2 unfolding r_def .
  show "int (10 * nat (n div 10) + nat (n mod 10)) = n" using 3 unfolding q_def r_def .
qed

lemma four_digit_split:
  fixes n :: int
  assumes "0 \<le> n" "n \<le> 9999"
  shows "nat (n div 1000) \<le> 9" "nat (n div 100 mod 10) \<le> 9" "nat (n div 10 mod 10) \<le> 9"
    "nat (n mod 10) \<le> 9"
    "int (1000 * nat (n div 1000) + 100 * nat (n div 100 mod 10) + 10 * nat (n div 10 mod 10)
        + nat (n mod 10)) = n"
proof -
  define q1 where "q1 = n div 10"
  define q2 where "q2 = q1 div 10"
  define q3 where "q3 = q2 div 10"
  have e1: "n = 10 * q1 + n mod 10" by (simp add: q1_def)
  have e2: "q1 = 10 * q2 + q1 mod 10" by (simp add: q2_def)
  have e3: "q2 = 10 * q3 + q2 mod 10" by (simp add: q3_def)
  have h2: "n div 100 = q2" unfolding q2_def q1_def by (simp add: zdiv_zmult2_eq[symmetric])
  have h3: "n div 1000 = q3"
    unfolding q3_def q2_def q1_def by (simp add: zdiv_zmult2_eq[symmetric])
  have b0: "0 \<le> n mod 10" "n mod 10 < 10" "0 \<le> q1 mod 10" "q1 mod 10 < 10"
    "0 \<le> q2 mod 10" "q2 mod 10 < 10" by simp_all
  have q1: "0 \<le> q1" "q1 \<le> 999" using assms e1 b0(1,2) by linarith+
  have q2: "0 \<le> q2" "q2 \<le> 99" using q1 e2 b0(3,4) by linarith+
  have q3: "0 \<le> q3" "q3 \<le> 9" using q2 e3 b0(5,6) by linarith+
  show "nat (n div 1000) \<le> 9" using q3 h3 by simp
  show "nat (n div 100 mod 10) \<le> 9" using b0(5,6) h2 by simp
  show "nat (n div 10 mod 10) \<le> 9" using b0(3,4) by (simp add: q1_def)
  show "nat (n mod 10) \<le> 9" using b0(1,2) by simp
  have "int (1000 * nat q3 + 100 * nat (q2 mod 10) + 10 * nat (q1 mod 10) + nat (n mod 10))
        = 1000 * q3 + 100 * (q2 mod 10) + 10 * (q1 mod 10) + n mod 10"
    using q3(1) b0 by simp
  also have "\<dots> = n" using e1 e2 e3 by linarith
  finally show "int (1000 * nat (n div 1000) + 100 * nat (n div 100 mod 10)
        + 10 * nat (n div 10 mod 10) + nat (n mod 10)) = n"
    by (simp add: h2 h3 q1_def[symmetric])
qed

lemma strptime_dmy_string:
  assumes "valid_date d"
  shows "strptime_dmY (dmy_string d) = Inr d"
proof -
  have v: "1 \<le> year d" "year d \<le> 9999" "1 \<le> month d" "month d \<le> 12" "1 \<le> day d"
    "day d \<le> days_in_month (year d) (month d)"
    using assms by (simp_all add: valid_date_def MINYEAR_def MAXYEAR_def)
  have d31: "day d \<le> 31" using v(6) days_in_month_le_31[OF v(3,4), of "year d"] by simp
  define d1 d2 where "d1 = nat (day d div 10)" and "d2 = nat (day d mod 10)"
  define m1 m2 where "m1 = nat (month d div 10)" and "m2 = nat (month d mod 10)"
  define y1 y2 y3 y4 where "y1 = nat (year d div 1000)" and "y2 = nat (year d div 100 mod 10)"
    and "y3 = nat (year d div 10 mod 10)" and "y4 = nat (year d mod 10)"
  have r: "0 \<le> day d" "day d \<le> 99" "0 \<le> month d" "month d \<le> 99" "0 \<le> year d"
    using v(1,3,4,5) d31 by simp_all
  note dd = two_digit_split[OF r(1,2), folded d1_def d2_def]
  note mm = two_digit_split[OF r(3,4), folded m1_def m2_def]
  note yy = four_digit_split[OF r(5) v(2), folded y1_def y2_def y3_def y4_def]
  have "int 1 \<le> int (10 * d1 + d2)" "int (10 * d1 + d2) \<le> int 31"
    unfolding dd(3) using v(5) d31 by simp_all
  then have dn: "1 \<le> 10 * d1 + d2" "10 * d1 + d2 \<le> 31"
    by (simp_all only: of_nat_le_iff)
  have "int 1 \<le> int (10 * m1 + m2)" "int (10 * m1 + m2) \<le> int 12"
    unfolding mm(3) using v(3,4) by simp_all
  then have mn: "1 \<le> 10 * m1 + m2" "10 * m1 + m2 \<le> 12"
    by (simp_all only: of_nat_le_iff)
  have dok: "(d1 = 3 \<and> d2 \<le> 1) \<or> d1 = 1 \<or> d1 = 2 \<or> (d1 = 0 \<and> 1 \<le> d2)"
    using dn by arith
  have mok: "(m1 = 1 \<and> m2 \<le> 2) \<or> (m1 = 0 \<and> 1 \<le> m2)"
    using mn by arith
  have s: "dmy_string d = [48 + d1, 48 + d2, 46, 48 + m1, 48 + m2, 46,
                           48 + y1, 48 + y2, 48 + y3, 48 + y4]"
    by (simp add: dmy_string_def two_digits_def four_digits_def d1_def d2_def m1_def m2_def
        y1_def y2_def y3_def y4_def)
  have "strptime_dmY (dmy_string d) = date_new (year d) (month d) (day d)"
    unfolding s strptime_digits[OF dd(1,2) mm(1,2) yy(1,2,3,4) dok mok] dd(3) mm(3) yy(5) ..
  then show ?thesis using date_new_valid[OF assms] by simp
qed

lemma strptime_Inl: "strptime_dmY s = Inl e \<Longrightarrow> e = ValueError"
  by (auto simp: strptime_dmY_def split: list.splits prod.splits if_splits dest: date_new_Inl)

lemma strptime_Inr: "strptime_dmY s = Inr d \<Longrightarrow> valid_date d"
  by (auto simp: strptime_dmY_def split: list.splits prod.splits if_splits dest: date_new_Inr(2))

lemma str_isdigit_ascii:
  assumes "p \<noteq> []" "list_all ascii_digit p"
  shows "str_isdigit p"
  using assms by (auto simp: str_isdigit_def list_all_iff ascii_digit_isdigit)

lemma char_isdecimal_ascii: "48 \<le> c \<Longrightarrow> c \<le> 57 \<Longrightarrow> char_isdecimal c"
  by (rule ascii_digit_isdecimal) (simp add: ascii_digit_def)

lemma char_isdecimal_below: "c < 48 \<Longrightarrow> \<not> char_isdecimal c"
  by (simp add: char_isdecimal_def in_ranges_def decimal_ranges_def)

lemma decimal_value_ascii: "48 \<le> c \<Longrightarrow> c \<le> 57 \<Longrightarrow> decimal_value c = int c - 48"
  by (rule ascii_digit_value) (simp add: ascii_digit_def)

lemmas strptime_eval =
  strptime_dmY_def re_match_dmY_def re_d_def re_m_def re_Y_def re_dot_def two_chars_def
  one_char_def py_int_def date_new_def MINYEAR_def MAXYEAR_def days_in_month_def
  DAYS_IN_MONTH_def is_leap_def mk_date_def
  char_isdecimal_ascii char_isdecimal_below decimal_value_ascii

section \<open>The lookahead window\<close>

text \<open>
  C1. The 7-day window is tested on the congratulation date, after the move off the
  weekend: when the clock shows \<open>today\<close> throughout the run and the record stored under
  \<open>nm\<close> has a birthday whose congratulation date \<open>dc\<close> is more than 7 days after
  \<open>today\<close>, the run returns a result and \<open>nm\<close> is in none of its buckets.
\<close>

theorem window_on_shifted_date:
  assumes "distinct (map fst book)" and "(nm, r) \<in> set book" and "birthday r = Some b"
    and "next_birthday today b = Inr nb" and "date_to_congratulate nb = Inr dc"
    and "days_between dc today > 7"
  shows "\<exists>res. fst (get_birthdays_per_week (steady_clock today) book) = Inr res
           \<and> (\<forall>w. nm \<notin> set (bucket res w))"
proof (rule excluded[OF assms(1,2,3)])
  fix w show "\<not> congratulated today b w" using assms(4,5,6) by (simp add: congratulated_def)
qed

text \<open>
  Two instances. On Friday 14 June 2024 a birthday of 14 June (zero days away) rolls to
  Saturday 14 June 2025 and moves to Monday 16 June 2025, 367 days away. On Saturday
  8 June 2024 a birthday of Saturday 15 June, 7 days away, moves to Monday 17 June,
  9 days away. Both contacts are left out.
\<close>

theorem window_on_shifted_date_witness:
  "weekday (mk_date 2024 6 14) = 4
   \<and> next_birthday (mk_date 2024 6 14) (mk_date 1990 6 14) = Inr (mk_date 2025 6 14)
   \<and> date_to_congratulate (mk_date 2025 6 14) = Inr (mk_date 2025 6 16)
   \<and> days_between (mk_date 2025 6 16) (mk_date 2024 6 14) = 367
   \<and> (\<exists>res. fst (get_birthdays_per_week (steady_clock (mk_date 2024 6 14))
                 (one_contact_book (mk_date 1990 6 14))) = Inr res
          \<and> (\<forall>w. ascii ''Ann'' \<notin> set (bucket res w)))
   \<and> weekday (mk_date 2024 6 15) = 5
   \<and> days_between (mk_date 2024 6 15) (mk_date 2024 6 8) = 7
   \<and> next_birthday (mk_date 2024 6 8) (mk_date 1990 6 15) = Inr (mk_date 2024 6 15)
   \<and> date_to_congratulate (mk_date 2024 6 15) = Inr (mk_date 2024 6 17)
   \<and> days_between (mk_date 2024 6 17) (mk_date 2024 6 8) = 9
   \<and> (\<exists>res. fst (get_birthdays_per_week (steady_clock (mk_date 2024 6 8))
                 (one_contact_book (mk_date 1990 6 15))) = Inr res
          \<and> (\<forall>w. ascii ''Ann'' \<notin> set (bucket res w)))"
proof -
  have d1: "distinct (map fst (one_contact_book (mk_date 1990 6 14)))"
    and d2: "distinct (map fst (one_contact_book (mk_date 1990 6 15)))"
    by (simp_all add: one_contact_book_def)
  have m1: "(ascii ''Ann'', contact ''Ann'' (Some (mk_date 1990 6 14)))
              \<in> set (one_contact_book (mk_date 1990 6 14))"
    and m2: "(ascii ''Ann'', contact ''Ann'' (Some (mk_date 1990 6 15)))
              \<in> set (one_contact_book (mk_date 1990 6 15))"
    by (simp_all add: one_contact_book_def)
  have b: "birthday (contact ''Ann'' (Some bd)) = Some bd" for bd
    by (simp add: contact_def)
  have w1: "weekday (mk_date 2024 6 14) = 4" by code_simp
  have n1: "next_birthday (mk_date 2024 6 14) (mk_date 1990 6 14) = Inr (mk_date 2025 6 14)"
    by code_simp
  have c1: "date_to_congratulate (mk_date 2025 6 14) = Inr (mk_date 2025 6 16)" by code_simp
  have g1: "days_between (mk_date 2025 6 16) (mk_date 2024 6 14) = 367" by code_simp
  have w2: "weekday (mk_date 2024 6 15) = 5" by code_simp
  have r2: "days_between (mk_date 2024 6 15) (mk_date 2024 6 8) = 7" by code_simp
  have n2: "next_birthday (mk_date 2024 6 8) (mk_date 1990 6 15) = Inr (mk_date 2024 6 15)"
    by code_simp
  have c2: "date_to_congratulate (mk_date 2024 6 15) = Inr (mk_date 2024 6 17)" by code_simp
  have g2: "days_between (mk_date 2024 6 17) (mk_date 2024 6 8) = 9" by code_simp
  have k1: "7 < days_between (mk_date 2025 6 16) (mk_date 2024 6 14)" using g1 by simp
  have k2: "7 < days_between (mk_date 2024 6 17) (mk_date 2024 6 8)" using g2 by simp
  note t1 = window_on_shifted_date[OF d1 m1 b n1 c1 k1]
  note t2 = window_on_shifted_date[OF d2 m2 b n2 c2 k2]
  show ?thesis using w1 n1 c1 g1 t1 w2 r2 n2 c2 g2 t2 by (intro conjI)
qed

section \<open>The move off the weekend\<close>

text \<open>
  C2. When the next birthday \<open>nb\<close> of a record falls on a Saturday (5) or a Sunday (6),
  the congratulation date is \<open>nb\<close> plus \<open>7 - weekday nb\<close> days, which is a Monday one
  or two days later, so the Monday that follows; on every other weekday it is \<open>nb\<close>.
\<close>

theorem weekend_moves_to_monday:
  assumes "next_birthday today b = Inr nb"
  shows "(weekday nb = 5 \<or> weekday nb = 6 \<longrightarrow>
            (\<exists>dc. date_to_congratulate nb = Inr dc
               \<and> date_add_days nb (7 - weekday nb) = Inr dc
               \<and> days_between dc nb = 7 - weekday nb
               \<and> weekday dc = 0 \<and> 0 < days_between dc nb \<and> days_between dc nb \<le> 2))
       \<and> (weekday nb \<noteq> 5 \<and> weekday nb \<noteq> 6 \<longrightarrow> date_to_congratulate nb = Inr nb)"
proof -
  have v: "valid_date nb" using assms by (rule next_birthday_valid)
  from date_to_congratulate_ok[OF v] obtain dc where
    dc: "date_to_congratulate nb = Inr dc"
    "toordinal dc = toordinal nb + (if weekday nb = 5 \<or> weekday nb = 6 then 7 - weekday nb else 0)"
    "weekday nb = 5 \<or> weekday nb = 6 \<longrightarrow> weekday dc = 0"
    by blast
  show ?thesis
  proof (cases "weekday nb = 5 \<or> weekday nb = 6")
    case True
    then have "date_add_days nb (7 - weekday nb) = Inr dc"
      using dc(1) by (simp add: date_to_congratulate_def Let_def)
    then show ?thesis using True dc by (auto simp: days_between_def)
  next
    case False
    then show ?thesis by (simp add: date_to_congratulate_def)
  qed
qed

text \<open>Saturday 15 June 2024 moves to Monday 17 June; Thursday 13 June stays.\<close>

theorem weekend_moves_to_monday_witness:
  "next_birthday (mk_date 2024 6 10) (mk_date 1990 6 15) = Inr (mk_date 2024 6 15)
   \<and> weekday (mk_date 2024 6 15) = 5
   \<and> date_to_congratulate (mk_date 2024 6 15) = Inr (mk_date 2024 6 17)
   \<and> (\<exists>dc. date_to_congratulate (mk_date 2024 6 15) = Inr dc
          \<and> date_add_days (mk_date 2024 6 15) (7 - weekday (mk_date 2024 6 15)) = Inr dc
          \<and> days_between dc (mk_date 2024 6 15) = 7 - weekday (mk_date 2024 6 15)
          \<and> weekday dc = 0 \<and> 0 < days_between dc (mk_date 2024 6 15)
          \<and> days_between dc (mk_date 2024 6 15) \<le> 2)
   \<and> next_birthday (mk_date 2024 6 10) (mk_date 1990 6 13) = Inr (mk_date 2024 6 13)
   \<and> weekday (mk_date 2024 6 13) = 3
   \<and> date_to_congratulate (mk_date 2024 6 13) = Inr (mk_date 2024 6 13)"
proof -
  have n1: "next_birthday (mk_date 2024 6 10) (mk_date 1990 6 15) = Inr (mk_date 2024 6 15)"
    by code_simp
  have w1: "weekday (mk_date 2024 6 15) = 5" by code_simp
  have c1: "date_to_congratulate (mk_date 2024 6 15) = Inr (mk_date 2024 6 17)" by code_simp
  have n2: "next_birthday (mk_date 2024 6 10) (mk_date 1990 6 13) = Inr (mk_date 2024 6 13)"
    by code_simp
  have w2: "weekday (mk_date 2024 6 13) = 3" by code_simp
  have s1: "\<exists>dc. date_to_congratulate (mk_date 2024 6 15) = Inr dc
          \<and> date_add_days (mk_date 2024 6 15) (7 - weekday (mk_date 2024 6 15)) = Inr dc
          \<and> days_between dc (mk_date 2024 6 15) = 7 - weekday (mk_date 2024 6 15)
          \<and> weekday dc = 0 \<and> 0 < days_between dc (mk_date 2024 6 15)
          \<and> days_between dc (mk_date 2024 6 15) \<le> 2"
    using weekend_moves_to_monday[OF n1] w1 by simp
  have s2: "date_to_congratulate (mk_date 2024 6 13) = Inr (mk_date 2024 6 13)"
    using weekend_moves_to_monday[OF n2] w2 by simp
  show ?thesis using n1 w1 c1 s1 n2 w2 s2 by (intro conjI)
qed

section \<open>Birthdays on 29 February\<close>

text \<open>
  C3. A record whose birthday is 29 February is left out of the result, without an
  exception, when the candidate year is not a leap year: either the year of \<open>today\<close>
  is not one, or 29 February of that year is not after \<open>today\<close> and the year after is
  not one. The window plays no part.
\<close>

theorem leap_day_contact_excluded:
  assumes "distinct (map fst book)" and "(nm, r) \<in> set book" and "birthday r = Some b"
    and "month b = 2" and "day b = 29"
    and "\<not> is_leap (year today)
         \<or> (date_le \<lparr>year = year today, month = 2, day = 29\<rparr> today
            \<and> \<not> is_leap (year today + 1))"
  shows "\<exists>res. fst (get_birthdays_per_week (steady_clock today) book) = Inr res
           \<and> (\<forall>w. nm \<notin> set (bucket res w))"
proof (rule excluded[OF assms(1,2,3)])
  fix w show "\<not> congratulated today b w"
    using next_birthday_feb29[OF assms(4,5,6)] by (simp add: congratulated_def)
qed

text \<open>On 20 February 2025 (2025 is no leap year), and on 1 March 2024 (the birthday
  of 2024 has passed and 2025 is no leap year).\<close>

theorem leap_day_contact_excluded_witness:
  "\<not> is_leap (year (mk_date 2025 2 20))
   \<and> (\<exists>res. fst (get_birthdays_per_week (steady_clock (mk_date 2025 2 20))
                 (one_contact_book (mk_date 2000 2 29))) = Inr res
          \<and> (\<forall>w. ascii ''Ann'' \<notin> set (bucket res w)))
   \<and> is_leap (year (mk_date 2024 3 1))
   \<and> date_le \<lparr>year = year (mk_date 2024 3 1), month = 2, day = 29\<rparr> (mk_date 2024 3 1)
   \<and> \<not> is_leap (year (mk_date 2024 3 1) + 1)
   \<and> (\<exists>res. fst (get_birthdays_per_week (steady_clock (mk_date 2024 3 1))
                 (one_contact_book (mk_date 2000 2 29))) = Inr res
          \<and> (\<forall>w. ascii ''Ann'' \<notin> set (bucket res w)))"
proof -
  have d: "distinct (map fst (one_contact_book (mk_date 2000 2 29)))"
    by (simp add: one_contact_book_def)
  have m: "(ascii ''Ann'', contact ''Ann'' (Some (mk_date 2000 2 29)))
              \<in> set (one_contact_book (mk_date 2000 2 29))"
    by (simp add: one_contact_book_def)
  have b: "birthday (contact ''Ann'' (Some (mk_date 2000 2 29))) = Some (mk_date 2000 2 29)"
    by (simp add: contact_def)
  have f: "month (mk_date 2000 2 29) = 2" "day (mk_date 2000 2 29) = 29"
    by (simp_all add: mk_date_def)
  have l1: "\<not> is_leap (year (mk_date 2025 2 20))" by code_simp
  have l2: "is_leap (year (mk_date 2024 3 1))" by code_simp
  have l3: "date_le \<lparr>year = year (mk_date 2024 3 1), month = 2, day = 29\<rparr> (mk_date 2024 3 1)"
    by code_simp
  have l4: "\<not> is_leap (year (mk_date 2024 3 1) + 1)" by code_simp
  have h1: "\<not> is_leap (year (mk_date 2025 2 20))
     \<or> (date_le \<lparr>year = year (mk_date 2025 2 20), month = 2, day = 29\<rparr> (mk_date 2025 2 20)
        \<and> \<not> is_leap (year (mk_date 2025 2 20) + 1))"
    using l1 by simp
  have h2: "\<not> is_leap (year (mk_date 2024 3 1))
     \<or> (date_le \<lparr>year = year (mk_date 2024 3 1), month = 2, day = 29\<rparr> (mk_date 2024 3 1)
        \<and> \<not> is_leap (year (mk_date 2024 3 1) + 1))"
    using l3 l4 by simp
  note t1 = leap_day_contact_excluded[OF d m b f h1]
  note t2 = leap_day_contact_excluded[OF d m b f h2]
  show ?thesis using l1 t1 l2 l3 l4 t2 by (intro conjI)
qed

section \<open>The rollover to the next year\<close>

text \<open>
  C4. When the birthday's month and day in the year of \<open>today\<close> is a date not after
  \<open>today\<close>, the next birthday is what the constructor gives for the same month and day
  in the year after (that date, or the \<^verbatim>\<open>ValueError\<close> that skips the record when there
  is no such date). A birthday on the month and day of \<open>today\<close> is rolled over in this
  way, and its contact is in no bucket of the result.
\<close>

theorem rollover_to_next_year:
  "(\<forall>nb0. replace_year b (year today) = Inr nb0 \<longrightarrow> date_le nb0 today \<longrightarrow>
       next_birthday today b = date_new (year today + 1) (month b) (day b))
   \<and> (month b = month today \<longrightarrow> day b = day today \<longrightarrow>
        (valid_date today \<longrightarrow>
           next_birthday today b = date_new (year today + 1) (month b) (day b))
        \<and> (distinct (map fst book) \<longrightarrow> (nm, r) \<in> set book \<longrightarrow> birthday r = Some b \<longrightarrow>
             (\<exists>res. fst (get_birthdays_per_week (steady_clock today) book) = Inr res
                \<and> (\<forall>w. nm \<notin> set (bucket res w)))))"
proof (intro conjI allI impI)
  fix nb0 assume a: "replace_year b (year today) = Inr nb0" "date_le nb0 today"
  have "nb0 = \<lparr>year = year today, month = month b, day = day b\<rparr>"
    using a(1) date_new_Inr(1) by (simp add: replace_year_def)
  then show "next_birthday today b = date_new (year today + 1) (month b) (day b)"
    using a by (simp add: next_birthday_def replace_year_def)
next
  assume "month b = month today" "day b = day today" "valid_date today"
  then show "next_birthday today b = date_new (year today + 1) (month b) (day b)"
    by (intro same_day_next_birthday)
next
  assume a: "month b = month today" "day b = day today"
    "distinct (map fst book)" "(nm, r) \<in> set book" "birthday r = Some b"
  show "\<exists>res. fst (get_birthdays_per_week (steady_clock today) book) = Inr res
           \<and> (\<forall>w. nm \<notin> set (bucket res w))"
    by (rule excluded[OF a(3,4,5)]) (rule same_day_not_congratulated[OF a(1,2)])
qed

text \<open>On 10 June 2024: a birthday of 1 March goes to 1 March 2025, a birthday of
  10 June goes to 10 June 2025 and the contact is left out.\<close>

theorem rollover_to_next_year_witness:
  "replace_year (mk_date 1990 3 1) (year (mk_date 2024 6 10)) = Inr (mk_date 2024 3 1)
   \<and> date_le (mk_date 2024 3 1) (mk_date 2024 6 10)
   \<and> next_birthday (mk_date 2024 6 10) (mk_date 1990 3 1) = Inr (mk_date 2025 3 1)
   \<and> valid_date (mk_date 2024 6 10)
   \<and> month (mk_date 1990 6 10) = month (mk_date 2024 6 10)
   \<and> day (mk_date 1990 6 10) = day (mk_date 2024 6 10)
   \<and> next_birthday (mk_date 2024 6 10) (mk_date 1990 6 10) = Inr (mk_date 2025 6 10)
   \<and> (\<exists>res. fst (get_birthdays_per_week (steady_clock (mk_date 2024 6 10))
                 (one_contact_book (mk_date 1990 6 10))) = Inr res
          \<and> (\<forall>w. ascii ''Ann'' \<notin> set (bucket res w)))"
proof -
  have d: "distinct (map fst (one_contact_book (mk_date 1990 6 10)))"
    by (simp add: one_contact_book_def)
  have m: "(ascii ''Ann'', contact ''Ann'' (Some (mk_date 1990 6 10)))
              \<in> set (one_contact_book (mk_date 1990 6 10))"
    by (simp add: one_contact_book_def)
  have b: "birthday (contact ''Ann'' (Some (mk_date 1990 6 10))) = Some (mk_date 1990 6 10)"
    by (simp add: contact_def)
  have r: "replace_year (mk_date 1990 3 1) (year (mk_date 2024 6 10)) = Inr (mk_date 2024 3 1)"
    by code_simp
  have le: "date_le (mk_date 2024 3 1) (mk_date 2024 6 10)" by code_simp
  have v: "valid_date (mk_date 2024 6 10)" by code_simp
  have e1: "month (mk_date 1990 6 10) = month (mk_date 2024 6 10)"
    and e2: "day (mk_date 1990 6 10) = day (mk_date 2024 6 10)"
    by (simp_all add: mk_date_def)
  have n1: "date_new (year (mk_date 2024 6 10) + 1) (month (mk_date 1990 3 1))
              (day (mk_date 1990 3 1)) = Inr (mk_date 2025 3 1)" by code_simp
  have n2: "date_new (year (mk_date 2024 6 10) + 1) (month (mk_date 1990 6 10))
              (day (mk_date 1990 6 10)) = Inr (mk_date 2025 6 10)" by code_simp
  note t1 = rollover_to_next_year[of "mk_date 1990 3 1" "mk_date 2024 6 10",
      THEN conjunct1, rule_format, OF r le]
  note t2 = rollover_to_next_year[of "mk_date 1990 6 10" "mk_date 2024 6 10"
      "one_contact_book (mk_date 1990 6 10)" "ascii ''Ann''"
      "contact ''Ann'' (Some (mk_date 1990 6 10))",
      THEN conjunct2, rule_format, OF e1 e2]
  have s1: "next_birthday (mk_date 2024 6 10) (mk_date 1990 3 1) = Inr (mk_date 2025 3 1)"
    using t1 n1 by simp
  have s2: "next_birthday (mk_date 2024 6 10) (mk_date 1990 6 10) = Inr (mk_date 2025 6 10)"
    using t2 v n2 by simp
  have s3: "\<exists>res. fst (get_birthdays_per_week (steady_clock (mk_date 2024 6 10))
                 (one_contact_book (mk_date 1990 6 10))) = Inr res
          \<and> (\<forall>w. ascii ''Ann'' \<notin> set (bucket res w))"
    using t2 d m b by blast
  show ?thesis using r le s1 v e1 e2 s2 s3 by (intro conjI)
qed

section \<open>The clock\<close>

text \<open>
  C5, as the code has it. The method takes no date. It reads the clock once for every
  record with a birthday, and its result and the book afterwards depend on the clock
  through these readings only: two runs on the same book whose clocks agree on the
  first \<open>clock_reads book\<close> readings return the same.
\<close>

theorem same_clock_readings_same_result:
  assumes "\<forall>j < clock_reads book. clkA j = clkB j"
  shows "get_birthdays_per_week clkA book = get_birthdays_per_week clkB book"
  using loop_agree[of 0 book clkA 0 clkB Map.empty] assms
  by (simp add: get_birthdays_per_week_def)

text \<open>A clock that changes after the two readings of a run on a book of two contacts
  gives the result of the clock that never changes.\<close>

theorem same_clock_readings_same_result_witness:
  "clock_reads (two_contact_book (mk_date 1990 1 1) (mk_date 1990 6 18)) = 2
   \<and> steady_clock (mk_date 2024 6 10) 0
       = clock_change 2 (mk_date 2024 6 10) (mk_date 2024 6 11) 0
   \<and> steady_clock (mk_date 2024 6 10) 1
       = clock_change 2 (mk_date 2024 6 10) (mk_date 2024 6 11) 1
   \<and> steady_clock (mk_date 2024 6 10) 2
       \<noteq> clock_change 2 (mk_date 2024 6 10) (mk_date 2024 6 11) 2
   \<and> get_birthdays_per_week (steady_clock (mk_date 2024 6 10))
        (two_contact_book (mk_date 1990 1 1) (mk_date 1990 6 18))
     = get_birthdays_per_week (clock_change 2 (mk_date 2024 6 10) (mk_date 2024 6 11))
        (two_contact_book (mk_date 1990 1 1) (mk_date 1990 6 18))"
proof -
  have n: "clock_reads (two_contact_book (mk_date 1990 1 1) (mk_date 1990 6 18)) = 2"
    by (simp add: clock_reads_def two_contact_book_def contact_def)
  have r0: "steady_clock (mk_date 2024 6 10) 0
       = clock_change 2 (mk_date 2024 6 10) (mk_date 2024 6 11) 0"
    and r1: "steady_clock (mk_date 2024 6 10) 1
       = clock_change 2 (mk_date 2024 6 10) (mk_date 2024 6 11) 1"
    and r2: "steady_clock (mk_date 2024 6 10) 2
       \<noteq> clock_change 2 (mk_date 2024 6 10) (mk_date 2024 6 11) 2"
    by (simp_all add: steady_clock_def clock_change_def mk_date_def)
  have h: "\<forall>j < clock_reads (two_contact_book (mk_date 1990 1 1) (mk_date 1990 6 18)).
         steady_clock (mk_date 2024 6 10) j
         = clock_change 2 (mk_date 2024 6 10) (mk_date 2024 6 11) j"
    by (simp add: n steady_clock_def clock_change_def)
  show ?thesis using n r0 r1 r2 same_clock_readings_same_result[OF h] by (intro conjI)
qed

text \<open>
  C5 as stated fails: the date at the start of the run does not determine the result.
  Two runs on the same book start on Monday 10 June 2024. In the second, midnight
  passes after the first record: the record of Ann, born on 18 June, is examined on
  11 June, 7 days before her birthday, and she is in the bucket of Tuesday; in the
  first run she is 8 days away and left out.
\<close>

theorem clock_read_for_every_record_counterexample:
  "steady_clock (mk_date 2024 6 10) 0
     = clock_change 1 (mk_date 2024 6 10) (mk_date 2024 6 11) 0
   \<and> get_birthdays_per_week (steady_clock (mk_date 2024 6 10))
        (two_contact_book (mk_date 1990 1 1) (mk_date 1990 6 18))
     \<noteq> get_birthdays_per_week (clock_change 1 (mk_date 2024 6 10) (mk_date 2024 6 11))
        (two_contact_book (mk_date 1990 1 1) (mk_date 1990 6 18))"
proof -
  have a: "map_sum id (\<lambda>res. bucket res 1)
             (fst (get_birthdays_per_week (steady_clock (mk_date 2024 6 10))
                (two_contact_book (mk_date 1990 1 1) (mk_date 1990 6 18)))) = Inr []"
    by code_simp
  have b: "map_sum id (\<lambda>res. bucket res 1)
             (fst (get_birthdays_per_week (clock_change 1 (mk_date 2024 6 10) (mk_date 2024 6 11))
                (two_contact_book (mk_date 1990 1 1) (mk_date 1990 6 18)))) = Inr [ascii ''Ann'']"
    by code_simp
  have "get_birthdays_per_week (steady_clock (mk_date 2024 6 10))
        (two_contact_book (mk_date 1990 1 1) (mk_date 1990 6 18))
     \<noteq> get_birthdays_per_week (clock_change 1 (mk_date 2024 6 10) (mk_date 2024 6 11))
        (two_contact_book (mk_date 1990 1 1) (mk_date 1990 6 18))"
  proof
    assume "get_birthdays_per_week (steady_clock (mk_date 2024 6 10))
        (two_contact_book (mk_date 1990 1 1) (mk_date 1990 6 18))
     = get_birthdays_per_week (clock_change 1 (mk_date 2024 6 10) (mk_date 2024 6 11))
        (two_contact_book (mk_date 1990 1 1) (mk_date 1990 6 18))"
    then have "(Inr [] :: py_error + pystr list) = Inr [ascii ''Ann'']"
      using a b by simp
    then show False by (simp add: ascii_def)
  qed
  moreover have "steady_clock (mk_date 2024 6 10) 0
     = clock_change 1 (mk_date 2024 6 10) (mk_date 2024 6 11) 0"
    by (simp add: steady_clock_def clock_change_def)
  ultimately show ?thesis by (intro conjI)
qed

section \<open>The phone number\<close>

text \<open>
  What the check of line 25 does: a phone is accepted exactly when it has 10 characters
  and \<^verbatim>\<open>str.isdigit\<close> holds of it. Then \<^verbatim>\<open>Record\<close> creation and \<^verbatim>\<open>update_phone\<close>
  succeed and the stored phone is the string given; otherwise both raise
  \<^verbatim>\<open>InvalidPhoneNumberError\<close> and \<^verbatim>\<open>update_phone\<close> leaves the record as it was.
  Every string of 10 decimal digits \<^verbatim>\<open>0\<close> to \<^verbatim>\<open>9\<close> is accepted.
\<close>

lemma phone_accepted_iff_isdigit:
  "(length p = 10 \<and> str_isdigit p \<longrightarrow>
      Record_init nm p = Inr \<lparr>name = nm, phone = p, birthday = None\<rparr>
      \<and> update_phone r p = (None, r\<lparr>phone := p\<rparr>))
   \<and> (\<not> (length p = 10 \<and> str_isdigit p) \<longrightarrow>
      Record_init nm p = Inl InvalidPhoneNumberError
      \<and> update_phone r p = (Some InvalidPhoneNumberError, r))
   \<and> (length p = 10 \<and> list_all ascii_digit p \<longrightarrow> str_isdigit p)"
proof -
  have "str_isdigit p" if "length p = 10" "list_all ascii_digit p"
    using that by (intro str_isdigit_ascii) auto
  then show ?thesis
    by (auto simp: Record_init_def update_phone_def Phone_init_def)
qed

text \<open>The phone \<^verbatim>\<open>0123456789\<close> is accepted, the phone \<^verbatim>\<open>12345\<close> is refused.\<close>

lemma phone_accepted_iff_isdigit_instances:
  "length (ascii ''0123456789'') = 10 \<and> list_all ascii_digit (ascii ''0123456789'')
   \<and> str_isdigit (ascii ''0123456789'')
   \<and> Record_init (ascii ''Ann'') (ascii ''0123456789'')
       = Inr \<lparr>name = ascii ''Ann'', phone = ascii ''0123456789'', birthday = None\<rparr>
   \<and> update_phone (contact ''Ann'' None) (ascii ''0123456789'')
       = (None, (contact ''Ann'' None)\<lparr>phone := ascii ''0123456789''\<rparr>)
   \<and> \<not> (length (ascii ''12345'') = 10 \<and> str_isdigit (ascii ''12345''))
   \<and> Record_init (ascii ''Ann'') (ascii ''12345'') = Inl InvalidPhoneNumberError
   \<and> update_phone (contact ''Ann'' None) (ascii ''12345'')
       = (Some InvalidPhoneNumberError, contact ''Ann'' None)"
proof -
  have l: "length (ascii ''0123456789'') = 10" by (simp add: ascii_def)
  have a: "list_all ascii_digit (ascii ''0123456789'')" by code_simp
  have n: "\<not> (length (ascii ''12345'') = 10 \<and> str_isdigit (ascii ''12345''))"
    by (simp add: ascii_def)
  note t1 = phone_accepted_iff_isdigit[of "ascii ''0123456789''" "ascii ''Ann''" "contact ''Ann'' None"]
  note t2 = phone_accepted_iff_isdigit[of "ascii ''12345''" "ascii ''Ann''" "contact ''Ann'' None"]
  have d: "str_isdigit (ascii ''0123456789'')" using t1 l a by blast
  show ?thesis using l a d n t1 t2 by blast
qed

text \<open>
  C6. The claim is that exactly the strings of 10 decimal digits are accepted, which is
  what the message of the exception, \<^verbatim>\<open>Phone number must have 10 digits\<close>, says too.
  The code misses it: the string of ten times SUPERSCRIPT TWO (code point 178) holds no
  decimal digit, not of \<^verbatim>\<open>0\<close> to \<^verbatim>\<open>9\<close> and not of any script, and \<^verbatim>\<open>Record\<close>
  creation and \<^verbatim>\<open>update_phone\<close> accept and store it, because \<^verbatim>\<open>str.isdigit\<close> holds
  of it.
\<close>

theorem superscript_two_phone_accepted:
  "length (replicate 10 (178::nat)) = 10
   \<and> \<not> list_all ascii_digit (replicate 10 178)
   \<and> \<not> list_all char_isdecimal (replicate 10 178)
   \<and> Record_init (ascii ''Ann'') (replicate 10 178)
       = Inr \<lparr>name = ascii ''Ann'', phone = replicate 10 178, birthday = None\<rparr>
   \<and> update_phone (contact ''Ann'' None) (replicate 10 178)
       = (None, (contact ''Ann'' None)\<lparr>phone := replicate 10 178\<rparr>)"
proof -
  have g: "char_isdigit 178"
    by (simp add: char_isdigit_def in_ranges_def digit_ranges_def)
  have a: "\<not> ascii_digit 178" by (simp add: ascii_digit_def)
  have c: "\<not> char_isdecimal 178"
    by (simp add: char_isdecimal_def in_ranges_def decimal_ranges_def)
  have i: "str_isdigit (replicate 10 178)"
    using g by (simp add: str_isdigit_def list_all_iff)
  have p: "Phone_init (replicate 10 178) = Inr (replicate 10 178)"
    using i by (simp add: Phone_init_def)
  show ?thesis using a c p
    by (simp add: list_all_iff Record_init_def update_phone_def)
qed

section \<open>The birthday of a record\<close>

text \<open>
  C7. When \<^verbatim>\<open>strptime\<close> parses the string, \<^verbatim>\<open>add_birthday\<close> returns and the record
  holds the parsed date, a calendar date, in place of whatever birthday it had; when it
  does not, \<^verbatim>\<open>add_birthday\<close> raises \<^verbatim>\<open>ValueError\<close> and the record is as before. The
  day.month.year string of every calendar date parses, as that date.
\<close>

theorem add_birthday_parses_or_fails:
  "(valid_date d \<longrightarrow> add_birthday r (dmy_string d) = (None, r\<lparr>birthday := Some d\<rparr>))
   \<and> (case strptime_dmY s of
        Inr d' \<Rightarrow> valid_date d' \<and> add_birthday r s = (None, r\<lparr>birthday := Some d'\<rparr>)
      | Inl e \<Rightarrow> add_birthday r s = (Some ValueError, r))"
proof (intro conjI impI)
  assume "valid_date d"
  then show "add_birthday r (dmy_string d) = (None, r\<lparr>birthday := Some d\<rparr>)"
    by (simp add: add_birthday_def strptime_dmy_string)
next
  show "case strptime_dmY s of
        Inr d' \<Rightarrow> valid_date d' \<and> add_birthday r s = (None, r\<lparr>birthday := Some d'\<rparr>)
      | Inl e \<Rightarrow> add_birthday r s = (Some ValueError, r)"
  proof (cases "strptime_dmY s")
    case (Inl e)
    then show ?thesis using strptime_Inl[OF Inl] by (simp add: add_birthday_def)
  next
    case (Inr d')
    then show ?thesis using strptime_Inr[OF Inr] by (simp add: add_birthday_def)
  qed
qed

text \<open>
  \<^verbatim>\<open>17.03.1990\<close> replaces a birthday stored before, \<^verbatim>\<open>1.3.1990\<close> parses as well;
  \<^verbatim>\<open>31.02.1990\<close> and \<^verbatim>\<open>17.03.90\<close> raise and leave the stored birthday.
\<close>

theorem add_birthday_parses_or_fails_witness:
  "valid_date (mk_date 1990 3 17)
   \<and> dmy_string (mk_date 1990 3 17) = ascii ''17.03.1990''
   \<and> add_birthday (contact ''Ann'' (Some (mk_date 2001 1 1))) (ascii ''17.03.1990'')
       = (None, contact ''Ann'' (Some (mk_date 1990 3 17)))
   \<and> strptime_dmY (ascii ''1.3.1990'') = Inr (mk_date 1990 3 1)
   \<and> add_birthday (contact ''Ann'' None) (ascii ''1.3.1990'')
       = (None, contact ''Ann'' (Some (mk_date 1990 3 1)))
   \<and> strptime_dmY (ascii ''31.02.1990'') = Inl ValueError
   \<and> add_birthday (contact ''Ann'' (Some (mk_date 2001 1 1))) (ascii ''31.02.1990'')
       = (Some ValueError, contact ''Ann'' (Some (mk_date 2001 1 1)))
   \<and> strptime_dmY (ascii ''17.03.90'') = Inl ValueError
   \<and> add_birthday (contact ''Ann'' (Some (mk_date 2001 1 1))) (ascii ''17.03.90'')
       = (Some ValueError, contact ''Ann'' (Some (mk_date 2001 1 1)))"
proof -
  have v: "valid_date (mk_date 1990 3 17)" by code_simp
  have s: "dmy_string (mk_date 1990 3 17) = ascii ''17.03.1990''" by code_simp
  have p1: "strptime_dmY (ascii ''1.3.1990'') = Inr (mk_date 1990 3 1)"
    by (simp add: ascii_def strptime_eval)
  have p2: "strptime_dmY (ascii ''31.02.1990'') = Inl ValueError"
    by (simp add: ascii_def strptime_eval)
  have p3: "strptime_dmY (ascii ''17.03.90'') = Inl ValueError"
    by (simp add: ascii_def strptime_eval)
  have u: "(contact ''Ann'' b)\<lparr>birthday := Some x\<rparr> = contact ''Ann'' (Some x)" for b x
    by (simp add: contact_def)
  have t1: "add_birthday (contact ''Ann'' (Some (mk_date 2001 1 1))) (ascii ''17.03.1990'')
       = (None, contact ''Ann'' (Some (mk_date 1990 3 17)))"
    using add_birthday_parses_or_fails[of "mk_date 1990 3 17"
        "contact ''Ann'' (Some (mk_date 2001 1 1))" "[]"] v
    by (simp add: s u)
  have t2: "add_birthday (contact ''Ann'' None) (ascii ''1.3.1990'')
       = (None, contact ''Ann'' (Some (mk_date 1990 3 1)))"
    using add_birthday_parses_or_fails[of "mk_date 1990 3 17" "contact ''Ann'' None"
        "ascii ''1.3.1990''"]
    by (simp add: p1 u)
  have t3: "add_birthday (contact ''Ann'' (Some (mk_date 2001 1 1))) (ascii ''31.02.1990'')
       = (Some ValueError, contact ''Ann'' (Some (mk_date 2001 1 1)))"
    using add_birthday_parses_or_fails[of "mk_date 1990 3 17"
        "contact ''Ann'' (Some (mk_date 2001 1 1))" "ascii ''31.02.1990''"]
    by (simp add: p2)
  have t4: "add_birthday (contact ''Ann'' (Some (mk_date 2001 1 1))) (ascii ''17.03.90'')
       = (Some ValueError, contact ''Ann'' (Some (mk_date 2001 1 1)))"
    using add_birthday_parses_or_fails[of "mk_date 1990 3 17"
        "contact ''Ann'' (Some (mk_date 2001 1 1))" "ascii ''17.03.90''"]
    by (simp add: p3)
  show ?thesis using v s t1 p1 t2 p2 t3 p3 t4 by (intro conjI)
qed

section \<open>One record for a name\<close>

text \<open>
  C8. In every book that the program can reach, the keys are distinct and each record
  is stored under its own name. \<^verbatim>\<open>add_record\<close> has no failing case; after it the
  keys are distinct still, the only item under the name of the record is the record
  given, and the book has grown by one item exactly when the name was new.
\<close>

theorem one_record_per_name:
  assumes "reachable book"
  shows "distinct (map fst book) \<and> list_all (\<lambda>(k, r'). name r' = k) book
         \<and> distinct (map fst (add_record book r))
         \<and> filter (\<lambda>(k, r'). k = name r) (add_record book r) = [(name r, r)]
         \<and> length (add_record book r)
             = (if name r \<in> fst ` set book then length book else length book + 1)"
proof -
  have k: "keyed_by_name book" using assms by (rule reachable_keyed)
  then have d: "distinct (map fst book)" by (simp add: keyed_by_name_def)
  show ?thesis
    using k d setitem_filter[OF d, of "name r" r]
    by (simp add: keyed_by_name_def add_record_def setitem_distinct setitem_length)
qed

text \<open>Adding a second record for Ann to a book that holds Ann leaves one item, the
  second record.\<close>

theorem one_record_per_name_witness:
  "reachable (one_contact_book (mk_date 1990 6 15))
   \<and> name (contact ''Ann'' None) \<in> fst ` set (one_contact_book (mk_date 1990 6 15))
   \<and> add_record (one_contact_book (mk_date 1990 6 15)) (contact ''Ann'' None)
       = [(ascii ''Ann'', contact ''Ann'' None)]
   \<and> distinct (map fst (one_contact_book (mk_date 1990 6 15)))
   \<and> list_all (\<lambda>(k, r'). name r' = k) (one_contact_book (mk_date 1990 6 15))
   \<and> distinct (map fst (add_record (one_contact_book (mk_date 1990 6 15)) (contact ''Ann'' None)))
   \<and> filter (\<lambda>(k, r'). k = name (contact ''Ann'' None))
        (add_record (one_contact_book (mk_date 1990 6 15)) (contact ''Ann'' None))
       = [(name (contact ''Ann'' None), contact ''Ann'' None)]
   \<and> length (add_record (one_contact_book (mk_date 1990 6 15)) (contact ''Ann'' None))
       = length (one_contact_book (mk_date 1990 6 15))"
proof -
  have e: "one_contact_book (mk_date 1990 6 15)
           = add_record [] (contact ''Ann'' (Some (mk_date 1990 6 15)))"
    by (simp add: one_contact_book_def add_record_def contact_def)
  have r: "reachable (one_contact_book (mk_date 1990 6 15))"
    unfolding e by (rule reachable.added[OF reachable.empty])
  have m: "name (contact ''Ann'' None) \<in> fst ` set (one_contact_book (mk_date 1990 6 15))"
    by (simp add: one_contact_book_def contact_def)
  have a: "add_record (one_contact_book (mk_date 1990 6 15)) (contact ''Ann'' None)
       = [(ascii ''Ann'', contact ''Ann'' None)]"
    by (simp add: one_contact_book_def add_record_def contact_def)
  note t = one_record_per_name[OF r, of "contact ''Ann'' None"]
  show ?thesis using r m a t by simp
qed

section \<open>Finding and deleting\<close>

text \<open>
  C9. \<^verbatim>\<open>find\<close> after \<^verbatim>\<open>add_record\<close>, with the name of the record added, returns
  that record (so its name and its phone); on a name that is no key of the book,
  \<^verbatim>\<open>find\<close> and \<^verbatim>\<open>delete\<close> raise \<^verbatim>\<open>KeyError\<close>, and the book is as before.
\<close>

theorem add_then_find:
  "find_record (add_record book r) (name r) = Inr r
   \<and> (nm \<notin> fst ` set book \<longrightarrow>
        find_record book nm = Inl KeyError \<and> delete book nm = (Some KeyError, book))"
  by (simp add: find_record_def add_record_def delete_def getitem_setitem getitem_absent pop_absent)

text \<open>Bob is not in the book of Ann; after his record is added, it is found.\<close>

theorem add_then_find_witness:
  "ascii ''Bob'' \<notin> fst ` set (one_contact_book (mk_date 1990 6 15))
   \<and> find_record (one_contact_book (mk_date 1990 6 15)) (ascii ''Bob'') = Inl KeyError
   \<and> delete (one_contact_book (mk_date 1990 6 15)) (ascii ''Bob'')
       = (Some KeyError, one_contact_book (mk_date 1990 6 15))
   \<and> find_record (add_record (one_contact_book (mk_date 1990 6 15)) (contact ''Bob'' None))
        (name (contact ''Bob'' None)) = Inr (contact ''Bob'' None)"
proof -
  have n: "ascii ''Bob'' \<notin> fst ` set (one_contact_book (mk_date 1990 6 15))"
    by (simp add: one_contact_book_def ascii_def)
  note t = add_then_find[of "one_contact_book (mk_date 1990 6 15)" "contact ''Bob'' None"
      "ascii ''Bob''"]
  show ?thesis using n t by blast
qed

section \<open>The query writes nothing\<close>

text \<open>
  C10. Whatever the clock shows and whether the run returns or raises, the book that
  the loop hands on at its end is the book the method was called on: the same names in
  the same order, each with the same record. The proof is the induction over the loop
  (\<open>loop_frame\<close>), through every branch of its body.
\<close>

theorem query_leaves_book_unchanged:
  "snd (get_birthdays_per_week clk book) = book"
  unfolding get_birthdays_per_week_def by (rule loop_frame)

end
